theory Spec2Isabelle
  imports Main "HOL-Library.Word"
begin

section \<open>The bounded fan-out dispatcher (\<open>ParallelChecker\<close>)\<close>

text \<open>
  The Go source is a small concurrent program: one client goroutine calls
  \<open>Start\<close>, \<open>QueueCheck\<close> and \<open>Finish\<close>; \<open>Start\<close> spawns the dispatch loop in an
  \<open>errgroup.Group\<close>; the loop spawns one worker goroutine per request, bounded by a
  weighted semaphore. The embedding is an interleaving semantics: the state holds the
  fields of the struct together with the program counter of every goroutine, and a
  labelled, executable step function performs one atomic action of one goroutine.
  A run is a list of labels (the schedule, including what the backend answers and when the
  caller's context is cancelled).

  Scope: one client goroutine, which calls \<open>Start\<close> first and once and then makes any
  sequence of \<open>QueueCheck\<close> and \<open>Finish\<close> calls, each blocking as in the source. The
  channel, the errgroup, the semaphore and the contexts are the Go runtime's and
  \<open>golang.org/x/sync\<close>'s; their behaviour is written out below as far as the program uses
  it. The backend is the environment: it may answer any call with any outcome at any time.
\<close>

subsection \<open>Data\<close>

text \<open>\<open>core.ObjectAndRelation\<close>: the (object-type, object-id, relation) triple.\<close>

datatype onr = ONR (onr_namespace: string) (onr_object_id: string) (onr_relation: string)

text \<open>\<open>v1.ResolverMeta\<close> is opaque to this file: it is only stored and passed on.\<close>

datatype resolver_meta = ResolverMeta nat

text \<open>\<open>v1.DispatchCheckRequest\<close>, with the three fields \<open>QueueCheck\<close> fills in.\<close>

record dispatch_check_request =
  Metadata :: resolver_meta
  ObjectAndRelation :: onr
  Subject :: onr

text \<open>
  Modelled from the spec: the membership outcome of one backend call
  (\<open>v1.DispatchCheckResponse\<close>'s \<open>Membership\<close> field; its declaration is not among the
  sources). "Membership Outcome: MEMBER | NOT_MEMBER".
\<close>

datatype membership = MEMBER | NOT_MEMBER

text \<open>
  Go \<open>error\<close> values: the two errors a \<open>context.Context\<close> reports, and the opaque errors
  of the dispatch backend.
\<close>

datatype error = Canceled | DeadlineExceeded | BackendError string

text \<open>What \<open>pc.c.DispatchCheck\<close> returns: \<open>(res, nil)\<close> or \<open>(_, err)\<close>.\<close>

datatype check_outcome = Responded membership | Failed error

text \<open>The calls the client makes after \<open>Start\<close>.\<close>

datatype call = QueueCheck onr resolver_meta | Finish

text \<open>
  Program points of the dispatch loop (the closure of \<open>Start\<close>, lines 49-77) and of the
  wrapper \<open>errgroup.Group.Go\<close> runs it in.
\<close>

datatype loop_phase =
    L_idle
  | L_acquire
  | L_recv
  | L_go dispatch_check_request
  | L_release
  | L_acquire_all
  | L_returned "error option"
  | L_exiting
  | L_done

text \<open>Program points of a worker (the closure of lines 61-71) and of its wrapper.\<close>

datatype worker_phase =
    W_call
  | W_in_call
  | W_add
  | W_release "error option"
  | W_returned "error option"
  | W_exiting
  | W_done

record worker =
  w_req :: dispatch_check_request
  w_phase :: worker_phase
  w_outcome :: "check_outcome option"

text \<open>
  The state. The first block is the \<open>ParallelChecker\<close> struct: \<open>toCheck\<close> is an
  unbuffered channel (only whether it is closed is state, a send is a rendezvous);
  \<open>g\<close> is the errgroup (its first error and its wait-group counter); \<open>checkCtx\<close> is
  the context derived by \<open>errgroup.WithContext\<close> (its \<open>Err()\<close>); \<open>results\<close> is the
  \<open>tuple.ONRSet\<close> (Modelled from the spec: the type is not among the sources, "Result
  Collector: deduplicated set of Candidate Resource identities"); the mutex \<open>mu\<close> makes
  \<open>AddResult\<close> one atomic step. The second block is the rest of the running program: the
  caller's context, the semaphore local to \<open>Start\<close>, the goroutines, the client. The third
  block is history kept for stating properties; no step reads it.
\<close>

record state =
  toCheck_closed :: bool
  g_err :: "error option"
  g_wg :: nat
  checkCtx_err :: "error option"
  subject :: onr
  maxConcurrent :: "8 word"
  results :: "onr set"

  ctx_err :: "error option"
  sem_cur :: nat
  loop :: loop_phase
  workers :: "worker list"
  pending :: "call list"
  in_finish :: bool
  finish_result :: "(onr set option \<times> error option) option"
  panicked :: "string option"

  issued :: "call list"
  dispatched :: "dispatch_check_request list"
  failures :: "error list"
  reacquired :: bool

subsection \<open>The functions of the source\<close>

text \<open>
  \<open>NewParallelChecker\<close> (lines 28-32): a fresh group and derived context, an open
  channel, the subject and the ceiling as given, an empty result set. Nothing is checked.
  The backend \<open>c\<close> is the environment: its answers are labels of the run.
\<close>

definition NewParallelChecker :: "onr \<Rightarrow> 8 word \<Rightarrow> state" where
  "NewParallelChecker subj maxc =
     \<lparr> toCheck_closed = False, g_err = None, g_wg = 0, checkCtx_err = None,
       subject = subj, maxConcurrent = maxc, results = {},
       ctx_err = None, sem_cur = 0, loop = L_idle, workers = [], pending = [],
       in_finish = False, finish_result = None, panicked = None,
       issued = [], dispatched = [], failures = [], reacquired = False \<rparr>"

text \<open>The client program: the calls made, in order, after \<open>Start\<close>.\<close>

definition client :: "call list \<Rightarrow> state \<Rightarrow> state" where
  "client prog s = s\<lparr>pending := prog\<rparr>"

text \<open>\<open>AddResult\<close> (lines 34-38).\<close>

definition AddResult :: "onr \<Rightarrow> state \<Rightarrow> state" where
  "AddResult resource s = s\<lparr>results := insert resource (results s)\<rparr>"

text \<open>The request \<open>QueueCheck\<close> builds (lines 41-45).\<close>

definition QueueCheck_request :: "onr \<Rightarrow> resolver_meta \<Rightarrow> state \<Rightarrow> dispatch_check_request" where
  "QueueCheck_request resource meta s =
     \<lparr> Metadata = meta, ObjectAndRelation = resource, Subject = subject s \<rparr>"

text \<open>What \<open>Finish\<close> returns once \<open>pc.g.Wait()\<close> has returned (lines 82-86).\<close>

definition Finish_return :: "state \<Rightarrow> onr set option \<times> error option" where
  "Finish_return s =
     (case g_err s of Some err \<Rightarrow> (None, Some err) | None \<Rightarrow> (Some (results s), None))"

subsection \<open>The library primitives\<close>

text \<open>
  \<open>semaphore.NewWeighted(int64(pc.maxConcurrent))\<close>: the size is the ceiling, an unsigned
  byte. \<open>Acquire(ctx, n)\<close> returns nil once \<open>n\<close> tokens are free and takes them; it returns
  \<open>ctx.Err()\<close> when the context is done; when both hold either may happen. The loop is
  the only goroutine that acquires, so there is no queue of waiters.
\<close>

definition sem_size :: "state \<Rightarrow> nat" where
  "sem_size s = unat (maxConcurrent s)"

definition sem_free :: "nat \<Rightarrow> state \<Rightarrow> bool" where
  "sem_free n s = (sem_cur s + n \<le> sem_size s)"

text \<open>\<open>Release(1)\<close>: panics when more is released than is held.\<close>

definition sem_Release :: "state \<Rightarrow> state" where
  "sem_Release s =
     (if sem_cur s < 1 then s\<lparr>panicked := Some ''semaphore: released more than held''\<rparr>
      else s\<lparr>sem_cur := sem_cur s - 1\<rparr>)"

text \<open>Cancelling a context that is already done changes nothing.\<close>

definition cancel_checkCtx :: "error \<Rightarrow> state \<Rightarrow> state" where
  "cancel_checkCtx e s =
     (case checkCtx_err s of None \<Rightarrow> s\<lparr>checkCtx_err := Some e\<rparr> | Some _ \<Rightarrow> s)"

text \<open>
  The errgroup wrapper, on a non-nil error from its function: \<open>errOnce.Do\<close> keeps the
  first error and cancels the derived context.
\<close>

definition errOnce :: "error \<Rightarrow> state \<Rightarrow> state" where
  "errOnce e s =
     (case g_err s of
        None \<Rightarrow> cancel_checkCtx Canceled (s\<lparr>g_err := Some e, failures := failures s @ [e]\<rparr>)
      | Some _ \<Rightarrow> s\<lparr>failures := failures s @ [e]\<rparr>)"

text \<open>\<open>wg.Done()\<close>: panics on a negative counter.\<close>

definition wg_Done :: "state \<Rightarrow> state" where
  "wg_Done s =
     (if g_wg s = 0 then s\<lparr>panicked := Some ''sync: negative WaitGroup counter''\<rparr>
      else s\<lparr>g_wg := g_wg s - 1\<rparr>)"

definition ctx_error :: "error \<Rightarrow> bool" where
  "ctx_error e = (e = Canceled \<or> e = DeadlineExceeded)"

subsection \<open>Steps\<close>

datatype label =
    Client_Start
  | Client_Send
  | Client_Close
  | Client_Wait
  | Loop_Acquire
  | Loop_AcquireErr
  | Loop_RecvClosed
  | Loop_Go
  | Loop_Release
  | Loop_Report
  | Loop_Exit
  | Worker_Call nat
  | Worker_Return nat check_outcome
  | Worker_Add nat
  | Worker_Release nat
  | Worker_Report nat
  | Worker_Exit nat
  | Ctx_Cancel error

definition set_phase :: "nat \<Rightarrow> worker_phase \<Rightarrow> state \<Rightarrow> state" where
  "set_phase i p s = s\<lparr>workers := (workers s)[i := (workers s ! i)\<lparr>w_phase := p\<rparr>]\<rparr>"

definition phase_of :: "nat \<Rightarrow> state \<Rightarrow> worker_phase option" where
  "phase_of i s = (if i < length (workers s) then Some (w_phase (workers s ! i)) else None)"

text \<open>
  One atomic action; \<open>None\<close> when the action is not enabled (the goroutine is elsewhere,
  or blocked).

  \<^item> \<open>Client_Start\<close>: \<open>pc.Start()\<close>, that is \<open>pc.g.Go(loop)\<close>: \<open>wg.Add(1)\<close> and the loop
    starts at line 52. It is the client's first call, made once.
  \<^item> \<open>Client_Send\<close>: \<open>QueueCheck\<close>, line 41: the send panics on a closed channel and
    otherwise completes together with the loop's receive of line 55.
  \<^item> \<open>Client_Close\<close>: \<open>Finish\<close>, line 81: \<open>close\<close> panics on a closed channel.
  \<^item> \<open>Client_Wait\<close>: \<open>Finish\<close>, lines 82-86: \<open>pc.g.Wait()\<close> returns when the counter is
    zero, cancels the derived context, and \<open>Finish\<close> returns.
  \<^item> \<open>Loop_Acquire\<close>, \<open>Loop_AcquireErr\<close>: lines 52 and 73.
  \<^item> \<open>Loop_RecvClosed\<close>: line 55 with \<open>ok = false\<close>; \<open>Loop_Release\<close>: line 57.
  \<^item> \<open>Loop_Go\<close>: line 61, \<open>wg.Add(1)\<close> and a new worker.
  \<^item> \<open>Worker_Call\<close>, \<open>Worker_Return\<close>: line 63, the start and the end of the backend
    call; \<open>Worker_Add\<close>: line 68; \<open>Worker_Release\<close>: the deferred line 62.
  \<^item> \<open>Loop_Report\<close>, \<open>Worker_Report\<close>: the wrapper's \<open>errOnce.Do\<close>;
    \<open>Loop_Exit\<close>, \<open>Worker_Exit\<close>: the wrapper's \<open>wg.Done()\<close>.
  \<^item> \<open>Ctx_Cancel\<close>: the caller's context is cancelled or times out; the derived context
    is done with the same error unless it is done already.
\<close>

fun step :: "label \<Rightarrow> state \<Rightarrow> state option" where
  "step Client_Start s =
     (if loop s = L_idle then Some (s\<lparr>g_wg := g_wg s + 1, loop := L_acquire\<rparr>) else None)"
| "step Client_Send s =
     (case pending s of
        QueueCheck resource meta # rest \<Rightarrow>
          if loop s = L_idle \<or> in_finish s then None
          else if toCheck_closed s then Some (s\<lparr>panicked := Some ''send on closed channel''\<rparr>)
          else if loop s = L_recv then
            Some (s\<lparr>pending := rest, issued := issued s @ [QueueCheck resource meta],
                    loop := L_go (QueueCheck_request resource meta s)\<rparr>)
          else None
      | _ \<Rightarrow> None)"
| "step Client_Close s =
     (case pending s of
        Finish # rest \<Rightarrow>
          if loop s = L_idle \<or> in_finish s then None
          else if toCheck_closed s then Some (s\<lparr>panicked := Some ''close of closed channel''\<rparr>)
          else Some (s\<lparr>pending := rest, issued := issued s @ [Finish],
                       toCheck_closed := True, in_finish := True\<rparr>)
      | _ \<Rightarrow> None)"
| "step Client_Wait s =
     (if in_finish s \<and> g_wg s = 0 then
        Some ((cancel_checkCtx Canceled s)
                \<lparr>in_finish := False, finish_result := Some (Finish_return s)\<rparr>)
      else None)"
| "step Loop_Acquire s =
     (case loop s of
        L_acquire \<Rightarrow>
          if sem_free 1 s then Some (s\<lparr>sem_cur := sem_cur s + 1, loop := L_recv\<rparr>) else None
      | L_acquire_all \<Rightarrow>
          if sem_free (sem_size s) s then
            Some (s\<lparr>sem_cur := sem_cur s + sem_size s, loop := L_returned None,
                    reacquired := True\<rparr>)
          else None
      | _ \<Rightarrow> None)"
| "step Loop_AcquireErr s =
     (case checkCtx_err s of
        Some err \<Rightarrow>
          if loop s = L_acquire \<or> loop s = L_acquire_all
          then Some (s\<lparr>loop := L_returned (Some err)\<rparr>) else None
      | None \<Rightarrow> None)"
| "step Loop_RecvClosed s =
     (if loop s = L_recv \<and> toCheck_closed s then Some (s\<lparr>loop := L_release\<rparr>) else None)"
| "step Loop_Release s =
     (if loop s = L_release then Some ((sem_Release s)\<lparr>loop := L_acquire_all\<rparr>) else None)"
| "step Loop_Go s =
     (case loop s of
        L_go req \<Rightarrow>
          Some (s\<lparr>g_wg := g_wg s + 1,
                  workers := workers s @ [\<lparr>w_req = req, w_phase = W_call, w_outcome = None\<rparr>],
                  loop := L_acquire\<rparr>)
      | _ \<Rightarrow> None)"
| "step Loop_Report s =
     (case loop s of
        L_returned (Some err) \<Rightarrow> Some ((errOnce err s)\<lparr>loop := L_exiting\<rparr>)
      | _ \<Rightarrow> None)"
| "step Loop_Exit s =
     (if loop s = L_returned None \<or> loop s = L_exiting
      then Some ((wg_Done s)\<lparr>loop := L_done\<rparr>) else None)"
| "step (Worker_Call i) s =
     (if phase_of i s = Some W_call then
        Some ((set_phase i W_in_call s)\<lparr>dispatched := dispatched s @ [w_req (workers s ! i)]\<rparr>)
      else None)"
| "step (Worker_Return i out) s =
     (if phase_of i s = Some W_in_call then
        Some (s\<lparr>workers := (workers s)[i := (workers s ! i)
                  \<lparr>w_phase := (case out of
                                Failed err \<Rightarrow> W_release (Some err)
                              | Responded m \<Rightarrow> if m = MEMBER then W_add else W_release None),
                   w_outcome := Some out\<rparr>]\<rparr>)
      else None)"
| "step (Worker_Add i) s =
     (if phase_of i s = Some W_add then
        Some (set_phase i (W_release None)
                (AddResult (ObjectAndRelation (w_req (workers s ! i))) s))
      else None)"
| "step (Worker_Release i) s =
     (case phase_of i s of
        Some (W_release r) \<Rightarrow> Some (set_phase i (W_returned r) (sem_Release s))
      | _ \<Rightarrow> None)"
| "step (Worker_Report i) s =
     (case phase_of i s of
        Some (W_returned (Some err)) \<Rightarrow> Some (set_phase i W_exiting (errOnce err s))
      | _ \<Rightarrow> None)"
| "step (Worker_Exit i) s =
     (if phase_of i s = Some (W_returned None) \<or> phase_of i s = Some W_exiting
      then Some (set_phase i W_done (wg_Done s)) else None)"
| "step (Ctx_Cancel e) s =
     (if ctx_err s = None \<and> ctx_error e
      then Some ((cancel_checkCtx e s)\<lparr>ctx_err := Some e\<rparr>) else None)"

text \<open>A panic ends the process: nothing runs afterwards.\<close>

definition fire :: "label \<Rightarrow> state \<Rightarrow> state option" where
  "fire l s = (if panicked s = None then step l s else None)"

text \<open>A run under a schedule; \<open>None\<close> when the schedule asks for a step that is not enabled.\<close>

fun run :: "label list \<Rightarrow> state \<Rightarrow> state option" where
  "run [] s = Some s"
| "run (l # ls) s = (case fire l s of None \<Rightarrow> None | Some s' \<Rightarrow> run ls s')"

text \<open>The system: a checker built for a subject and a ceiling, and a client program.\<close>

definition system :: "onr \<Rightarrow> 8 word \<Rightarrow> call list \<Rightarrow> state" where
  "system subj maxc prog = client prog (NewParallelChecker subj maxc)"

subsection \<open>Observations\<close>

text \<open>Workers inside the backend call.\<close>

definition in_call :: "worker \<Rightarrow> bool" where
  "in_call w = (w_phase w = W_in_call)"

definition calls_executing :: "state \<Rightarrow> nat" where
  "calls_executing s = length (filter in_call (workers s))"

text \<open>Workers that hold their token: from their creation to the deferred release.\<close>

fun holds_token :: "worker_phase \<Rightarrow> bool" where
  "holds_token W_call = True"
| "holds_token W_in_call = True"
| "holds_token W_add = True"
| "holds_token (W_release r) = True"
| "holds_token (W_returned r) = False"
| "holds_token W_exiting = False"
| "holds_token W_done = False"

definition token_holders :: "state \<Rightarrow> nat" where
  "token_holders s = length (filter (\<lambda>w. holds_token (w_phase w)) (workers s))"

text \<open>
  Tokens held by the loop itself: the one it acquired for the next request, and the full
  ceiling once the final acquisition has succeeded.
\<close>

definition loop_tokens :: "state \<Rightarrow> nat" where
  "loop_tokens s =
     (if reacquired s then sem_size s
      else case loop s of L_recv \<Rightarrow> 1 | L_go req \<Rightarrow> 1 | L_release \<Rightarrow> 1 | _ \<Rightarrow> 0)"

text \<open>Example data: the subject and the resources of the scenarios.\<close>

definition subj_U :: onr where
  "subj_U = ONR ''user'' ''U'' ''...''"

definition res_A :: onr where
  "res_A = ONR ''document'' ''A'' ''view''"

definition res_B :: onr where
  "res_B = ONR ''document'' ''B'' ''view''"

definition res_C :: onr where
  "res_C = ONR ''document'' ''C'' ''view''"

definition meta0 :: resolver_meta where
  "meta0 = ResolverMeta 50"

subsection \<open>Invariants\<close>

text \<open>
  The tokens in use are those of the workers that hold one and those the loop holds; the
  loop holds the full ceiling only at its end.
\<close>

definition tok_inv :: "state \<Rightarrow> bool" where
  "tok_inv s = (sem_cur s = token_holders s + loop_tokens s \<and> sem_cur s \<le> sem_size s
      \<and> (reacquired s \<longrightarrow> loop s = L_returned None \<or> loop s = L_done))"

text \<open>The wait-group counter counts the goroutines that have not exited.\<close>

definition active :: "worker \<Rightarrow> bool" where
  "active w = (w_phase w \<noteq> W_done)"

definition loop_active :: "state \<Rightarrow> nat" where
  "loop_active s = (if loop s = L_idle \<or> loop s = L_done then 0 else 1)"

definition wg_inv :: "state \<Rightarrow> bool" where
  "wg_inv s = (g_wg s = loop_active s + length (filter active (workers s)))"

text \<open>
  What a worker's program point says about the outcome of its backend call, and about the
  errors reported so far (\<open>fs\<close>) once it has passed the wrapper's \<open>errOnce.Do\<close>.
\<close>

fun phase_outcome_ok :: "error list \<Rightarrow> worker_phase \<Rightarrow> check_outcome option \<Rightarrow> bool" where
  "phase_outcome_ok fs W_call out = (out = None)"
| "phase_outcome_ok fs W_in_call out = (out = None)"
| "phase_outcome_ok fs W_add out = (out = Some (Responded MEMBER))"
| "phase_outcome_ok fs (W_release None) out = (\<exists>m. out = Some (Responded m))"
| "phase_outcome_ok fs (W_release (Some e)) out = (out = Some (Failed e))"
| "phase_outcome_ok fs (W_returned None) out = (\<exists>m. out = Some (Responded m))"
| "phase_outcome_ok fs (W_returned (Some e)) out = (out = Some (Failed e))"
| "phase_outcome_ok fs W_exiting out = (\<exists>e. out = Some (Failed e) \<and> e \<in> set fs)"
| "phase_outcome_ok fs W_done out = ((\<exists>m. out = Some (Responded m)) \<or> (\<exists>e. out = Some (Failed e) \<and> e \<in> set fs))"

definition wk_inv :: "state \<Rightarrow> bool" where
  "wk_inv s = (\<forall>i < length (workers s).
       phase_outcome_ok (failures s) (w_phase (workers s ! i)) (w_outcome (workers s ! i)))"

text \<open>The error of the group is the first error reported.\<close>

definition err_inv :: "state \<Rightarrow> bool" where
  "err_inv s = (g_err s = (case failures s of [] \<Rightarrow> None | e # fs \<Rightarrow> Some e))"

text \<open>
  The loop returns nil only through the final acquisition; otherwise it has reported an
  error.
\<close>

definition lp_inv :: "state \<Rightarrow> bool" where
  "lp_inv s = ((loop s = L_returned None \<longrightarrow> reacquired s)
             \<and> (loop s = L_exiting \<longrightarrow> failures s \<noteq> [])
             \<and> (loop s = L_done \<longrightarrow> reacquired s \<or> failures s \<noteq> []))"

text \<open>
  The client: the channel is closed exactly when \<open>Finish\<close> has been called, which is after
  \<open>Start\<close>; \<open>Finish\<close> is then either waiting or has returned.
\<close>

definition cl_inv :: "state \<Rightarrow> bool" where
  "cl_inv s = ((toCheck_closed s \<longleftrightarrow> Finish \<in> set (issued s))
             \<and> (in_finish s \<longrightarrow> toCheck_closed s)
             \<and> (toCheck_closed s \<longrightarrow> loop s \<noteq> L_idle)
             \<and> (finish_result s \<noteq> None \<longrightarrow> toCheck_closed s \<and> \<not> in_finish s)
             \<and> (toCheck_closed s \<longrightarrow> in_finish s \<or> finish_result s \<noteq> None))"

text \<open>
  When \<open>Finish\<close> has returned, the counter is zero, the loop has exited, and the value
  returned is what \<open>Finish\<close> would return now.
\<close>

definition fin_inv :: "state \<Rightarrow> bool" where
  "fin_inv s = (\<forall>r. finish_result s = Some r \<longrightarrow>
                  g_wg s = 0 \<and> loop s = L_done \<and> r = Finish_return s)"

text \<open>
  Where errors come from: the loop returns the error of the derived context; that context
  is done only after the caller's context is, or after a first error or the return of
  \<open>Wait\<close>; the first error reported is the caller's context's or a worker's backend error.
\<close>

definition failed_with :: "error \<Rightarrow> state \<Rightarrow> bool" where
  "failed_with e s = (\<exists>i < length (workers s). w_outcome (workers s ! i) = Some (Failed e))"

definition cx_inv :: "state \<Rightarrow> bool" where
  "cx_inv s = ((\<forall>e. loop s = L_returned (Some e) \<longrightarrow> checkCtx_err s = Some e)
             \<and> (\<forall>c. checkCtx_err s = Some c \<longrightarrow>
                    ctx_err s = Some c \<or> failures s \<noteq> [] \<or> finish_result s \<noteq> None)
             \<and> (failures s \<noteq> [] \<longrightarrow>
                    ctx_err s = Some (hd (failures s)) \<or> failed_with (hd (failures s)) s))"

text \<open>
  The requests \<open>QueueCheck\<close> builds for a list of calls, in order. The workers (and the
  request the loop is about to hand over) are the requests of the calls made so far.
\<close>

fun requests_of :: "onr \<Rightarrow> call list \<Rightarrow> dispatch_check_request list" where
  "requests_of subj [] = []"
| "requests_of subj (QueueCheck resource meta # cs) =
     \<lparr> Metadata = meta, ObjectAndRelation = resource, Subject = subj \<rparr> # requests_of subj cs"
| "requests_of subj (Finish # cs) = requests_of subj cs"

definition loop_request :: "state \<Rightarrow> dispatch_check_request list" where
  "loop_request s = (case loop s of L_go req \<Rightarrow> [req] | _ \<Rightarrow> [])"

text \<open>
  The requests the backend has received are requests of workers, one for each worker that
  has started its call.
\<close>

definition called :: "worker \<Rightarrow> bool" where
  "called w = (w_phase w \<noteq> W_call)"

definition req_inv :: "state \<Rightarrow> bool" where
  "req_inv s = (map w_req (workers s) @ loop_request s = requests_of (subject s) (issued s))"

definition disp_inv :: "state \<Rightarrow> bool" where
  "disp_inv s = (set (dispatched s) \<subseteq> set (map w_req (workers s))
              \<and> length (dispatched s) = length (filter called (workers s)))"

text \<open>
  The result set holds the resources of the workers that have passed \<open>AddResult\<close>;
  \<open>member_resources\<close> is the set of the resources of all workers whose outcome is MEMBER.
\<close>

definition inserted :: "worker \<Rightarrow> bool" where
  "inserted w = (w_outcome w = Some (Responded MEMBER) \<and> w_phase w \<noteq> W_add)"

definition member_resources :: "state \<Rightarrow> onr set" where
  "member_resources s =
     (\<lambda>w. ObjectAndRelation (w_req w)) ` {w \<in> set (workers s). w_outcome w = Some (Responded MEMBER)}"

definition res_inv :: "state \<Rightarrow> bool" where
  "res_inv s = (results s = (\<lambda>w. ObjectAndRelation (w_req w)) ` {w \<in> set (workers s). inserted w})"

text \<open>A panic happens only after \<open>Finish\<close> has returned (a send or a second close).\<close>

definition np_inv :: "state \<Rightarrow> bool" where
  "np_inv s = (panicked s \<noteq> None \<longrightarrow> finish_result s \<noteq> None)"

definition inv :: "state \<Rightarrow> bool" where
  "inv s = (tok_inv s \<and> wg_inv s \<and> wk_inv s \<and> err_inv s \<and> lp_inv s \<and> cl_inv s
          \<and> fin_inv s \<and> cx_inv s \<and> req_inv s \<and> disp_inv s \<and> res_inv s \<and> np_inv s)"

text \<open>With a ceiling of 0 the loop never gets past its first acquisition.\<close>

definition z_inv :: "state \<Rightarrow> bool" where
  "z_inv s = (maxConcurrent s = 0 \<and> workers s = [] \<and> dispatched s = [] \<and> \<not> reacquired s
            \<and> (loop s = L_idle \<or> loop s = L_acquire \<or> (\<exists>e. loop s = L_returned (Some e))
                 \<or> loop s = L_exiting \<or> loop s = L_done))"

text \<open>
  With a program that starts with \<open>Finish\<close>, no request is ever delivered. The rank counts
  the steps left until \<open>Finish\<close> returns in a run without cancellation.
\<close>

definition zc_inv :: "state \<Rightarrow> bool" where
  "zc_inv s = (workers s = [] \<and> (issued s = [] \<or> issued s = [Finish])
             \<and> (\<forall>req. loop s \<noteq> L_go req))"

fun loop_rank :: "loop_phase \<Rightarrow> nat" where
  "loop_rank L_idle = 6"
| "loop_rank L_acquire = 5"
| "loop_rank L_recv = 4"
| "loop_rank (L_go req) = 4"
| "loop_rank L_release = 3"
| "loop_rank L_acquire_all = 2"
| "loop_rank (L_returned r) = 1"
| "loop_rank L_exiting = 1"
| "loop_rank L_done = 0"

definition client_rank :: "state \<Rightarrow> nat" where
  "client_rank s = (if finish_result s \<noteq> None then 0 else if in_finish s then 1 else 2)"

definition rank :: "state \<Rightarrow> nat" where
  "rank s = loop_rank (loop s) + client_rank s"

definition zc_all :: "call list \<Rightarrow> state \<Rightarrow> bool" where
  "zc_all rest s = (inv s \<and> zc_inv s \<and> issued s @ pending s = Finish # rest)"

text \<open>
  Once the caller's context is done, so is the derived one. With a ceiling of 0, \<open>z_rank\<close>
  counts the steps left while the client waits in \<open>Finish\<close>.
\<close>

definition cc_inv :: "state \<Rightarrow> bool" where
  "cc_inv s = (ctx_err s \<noteq> None \<longrightarrow> checkCtx_err s \<noteq> None)"

definition z_rank :: "state \<Rightarrow> nat" where
  "z_rank s =
     (case loop s of L_acquire \<Rightarrow> 3 | L_returned r \<Rightarrow> 2 | L_exiting \<Rightarrow> 1 | _ \<Rightarrow> 0)
     + (if in_finish s then 1 else 0)"


text \<open>Example programs and schedules.\<close>

definition sched_zero_cancelled :: "label list" where
  "sched_zero_cancelled =
     [Client_Start, Client_Close, Ctx_Cancel Canceled, Loop_AcquireErr, Loop_Report, Loop_Exit,
      Client_Wait]"

definition sched_cancelled_first :: "label list" where
  "sched_cancelled_first =
     [Ctx_Cancel DeadlineExceeded, Client_Start, Loop_AcquireErr, Loop_Report, Loop_Exit,
      Client_Close, Client_Wait]"




definition prog_ABC :: "call list" where
  "prog_ABC = [QueueCheck res_A meta0, QueueCheck res_B meta0, QueueCheck res_C meta0, Finish]"

definition sched_ABC :: "label list" where
  "sched_ABC =
     [Client_Start, Loop_Acquire, Client_Send, Loop_Go, Loop_Acquire, Client_Send, Loop_Go,
      Worker_Call 0, Worker_Call 1,
      Worker_Return 1 (Responded NOT_MEMBER), Worker_Release 1, Worker_Exit 1,
      Loop_Acquire, Client_Send, Loop_Go, Worker_Call 2,
      Worker_Return 2 (Responded MEMBER), Worker_Return 0 (Responded MEMBER),
      Worker_Add 2, Worker_Add 0, Worker_Release 0, Worker_Release 2,
      Worker_Exit 0, Worker_Exit 2,
      Loop_Acquire, Client_Close, Loop_RecvClosed, Loop_Release, Loop_Acquire, Loop_Exit,
      Client_Wait]"

definition prog_A :: "call list" where
  "prog_A = [QueueCheck res_A meta0, Finish]"

definition sched_A_blocked :: "label list" where
  "sched_A_blocked =
     [Client_Start, Loop_Acquire, Client_Send, Loop_Go,
      Worker_Call 0, Worker_Return 0 (Responded MEMBER), Worker_Add 0]"

definition sched_A_cancelled :: "label list" where
  "sched_A_cancelled =
     sched_A_blocked @
     [Ctx_Cancel Canceled, Loop_AcquireErr, Loop_Report,
      Worker_Release 0, Worker_Exit 0, Loop_Exit, Client_Close, Client_Wait]"

definition sched_A_call :: "label list" where
  "sched_A_call = [Client_Start, Loop_Acquire, Client_Send, Loop_Go, Worker_Call 0]"

definition sched_finish :: "label list" where
  "sched_finish =
     [Client_Start, Loop_Acquire, Client_Close, Loop_RecvClosed, Loop_Release, Loop_Acquire,
      Loop_Exit, Client_Wait]"

definition prog_FQ :: "call list" where
  "prog_FQ = [Finish, QueueCheck res_A meta0]"

definition prog_FF :: "call list" where
  "prog_FF = [Finish, Finish]"

section \<open>Proofs\<close>

subsection \<open>Case analysis of a step\<close>

lemma stepE:
  assumes "step l s = Some s'"
  obtains
    (Start) "l = Client_Start" "loop s = L_idle" "s' = s\<lparr>g_wg := g_wg s + 1, loop := L_acquire\<rparr>"
  | (SendPanic) r m rest where "l = Client_Send" "pending s = QueueCheck r m # rest"
      "loop s \<noteq> L_idle" "\<not> in_finish s" "toCheck_closed s"
      "s' = s\<lparr>panicked := Some ''send on closed channel''\<rparr>"
  | (Send) r m rest where "l = Client_Send" "pending s = QueueCheck r m # rest"
      "\<not> in_finish s" "\<not> toCheck_closed s" "loop s = L_recv"
      "s' = s\<lparr>pending := rest, issued := issued s @ [QueueCheck r m],
                loop := L_go (QueueCheck_request r m s)\<rparr>"
  | (ClosePanic) rest where "l = Client_Close" "pending s = Finish # rest"
      "loop s \<noteq> L_idle" "\<not> in_finish s" "toCheck_closed s"
      "s' = s\<lparr>panicked := Some ''close of closed channel''\<rparr>"
  | (Close) rest where "l = Client_Close" "pending s = Finish # rest"
      "loop s \<noteq> L_idle" "\<not> in_finish s" "\<not> toCheck_closed s"
      "s' = s\<lparr>pending := rest, issued := issued s @ [Finish],
                toCheck_closed := True, in_finish := True\<rparr>"
  | (Wait) "l = Client_Wait" "in_finish s" "g_wg s = 0"
      "s' = (cancel_checkCtx Canceled s)\<lparr>in_finish := False, finish_result := Some (Finish_return s)\<rparr>"
  | (Acquire) "l = Loop_Acquire" "loop s = L_acquire" "sem_free 1 s"
      "s' = s\<lparr>sem_cur := sem_cur s + 1, loop := L_recv\<rparr>"
  | (AcquireAll) "l = Loop_Acquire" "loop s = L_acquire_all" "sem_free (sem_size s) s"
      "s' = s\<lparr>sem_cur := sem_cur s + sem_size s, loop := L_returned None, reacquired := True\<rparr>"
  | (AcquireErr) err where "l = Loop_AcquireErr" "checkCtx_err s = Some err"
      "loop s = L_acquire \<or> loop s = L_acquire_all" "s' = s\<lparr>loop := L_returned (Some err)\<rparr>"
  | (RecvClosed) "l = Loop_RecvClosed" "loop s = L_recv" "toCheck_closed s" "s' = s\<lparr>loop := L_release\<rparr>"
  | (LRelease) "l = Loop_Release" "loop s = L_release" "s' = (sem_Release s)\<lparr>loop := L_acquire_all\<rparr>"
  | (Go) req where "l = Loop_Go" "loop s = L_go req"
      "s' = s\<lparr>g_wg := g_wg s + 1,
                workers := workers s @ [\<lparr>w_req = req, w_phase = W_call, w_outcome = None\<rparr>],
                loop := L_acquire\<rparr>"
  | (LReport) err where "l = Loop_Report" "loop s = L_returned (Some err)"
      "s' = (errOnce err s)\<lparr>loop := L_exiting\<rparr>"
  | (LExit) "l = Loop_Exit" "loop s = L_returned None \<or> loop s = L_exiting"
      "s' = (wg_Done s)\<lparr>loop := L_done\<rparr>"
  | (Call) i where "l = Worker_Call i" "phase_of i s = Some W_call"
      "s' = (set_phase i W_in_call s)\<lparr>dispatched := dispatched s @ [w_req (workers s ! i)]\<rparr>"
  | (Return) i out where "l = Worker_Return i out" "phase_of i s = Some W_in_call"
      "s' = s\<lparr>workers := (workers s)[i := (workers s ! i)
                  \<lparr>w_phase := (case out of
                                Failed err \<Rightarrow> W_release (Some err)
                              | Responded m \<Rightarrow> if m = MEMBER then W_add else W_release None),
                   w_outcome := Some out\<rparr>]\<rparr>"
  | (Add) i where "l = Worker_Add i" "phase_of i s = Some W_add"
      "s' = set_phase i (W_release None) (AddResult (ObjectAndRelation (w_req (workers s ! i))) s)"
  | (WRelease) i r where "l = Worker_Release i" "phase_of i s = Some (W_release r)"
      "s' = set_phase i (W_returned r) (sem_Release s)"
  | (WReport) i err where "l = Worker_Report i" "phase_of i s = Some (W_returned (Some err))"
      "s' = set_phase i W_exiting (errOnce err s)"
  | (WExit) i where "l = Worker_Exit i"
      "phase_of i s = Some (W_returned None) \<or> phase_of i s = Some W_exiting"
      "s' = set_phase i W_done (wg_Done s)"
  | (Cancel) e where "l = Ctx_Cancel e" "ctx_err s = None" "ctx_error e"
      "s' = (cancel_checkCtx e s)\<lparr>ctx_err := Some e\<rparr>"
proof (cases l)
  case Client_Start then show ?thesis using assms Start by (simp split: if_splits)
next
  case Client_Send then show ?thesis using assms SendPanic Send
    by (simp split: list.splits call.splits if_splits)
next
  case Client_Close then show ?thesis using assms ClosePanic Close
    by (simp split: list.splits call.splits if_splits)
next
  case Client_Wait then show ?thesis using assms Wait by (simp split: if_splits)
next
  case Loop_Acquire then show ?thesis using assms Acquire AcquireAll
    by (simp split: loop_phase.splits if_splits)
next
  case Loop_AcquireErr then show ?thesis using assms AcquireErr
    by (simp split: option.splits if_splits)
next
  case Loop_RecvClosed then show ?thesis using assms RecvClosed by (simp split: if_splits)
next
  case Loop_Go then show ?thesis using assms Go by (simp split: loop_phase.splits)
next
  case Loop_Release then show ?thesis using assms LRelease by (simp split: if_splits)
next
  case Loop_Report then show ?thesis using assms LReport
    by (simp split: loop_phase.splits option.splits)
next
  case Loop_Exit then show ?thesis using assms LExit by (simp split: if_splits)
next
  case (Worker_Call i) then show ?thesis using assms Call by (simp split: if_splits)
next
  case (Worker_Return i out) then show ?thesis using assms Return by (simp split: if_splits)
next
  case (Worker_Add i) then show ?thesis using assms Add by (simp split: if_splits)
next
  case (Worker_Release i) then show ?thesis using assms WRelease
    by (simp split: option.splits worker_phase.splits)
next
  case (Worker_Report i) then show ?thesis using assms WReport
    by (simp split: option.splits worker_phase.splits)
next
  case (Worker_Exit i) then show ?thesis using assms WExit by (simp split: if_splits)
next
  case (Ctx_Cancel e) then show ?thesis using assms Cancel by (simp split: if_splits)
qed

lemmas upd_defs = sem_Release_def errOnce_def wg_Done_def cancel_checkCtx_def set_phase_def
  AddResult_def QueueCheck_request_def

lemmas run_defs = system_def client_def NewParallelChecker_def fire_def phase_of_def
  sem_free_def sem_size_def Finish_return_def ctx_error_def

text \<open>A property every step preserves holds after every run.\<close>

lemma run_invariant:
  assumes "\<And>s l s'. P s \<Longrightarrow> step l s = Some s' \<Longrightarrow> P s'"
    and "P s0" and "run sched s0 = Some s"
  shows "P s"
  using assms(2,3)
proof (induction sched arbitrary: s0)
  case Nil
  then show ?case by simp
next
  case (Cons l ls)
  from Cons.prems(2) obtain s1 where f: "fire l s0 = Some s1" and r: "run ls s1 = Some s"
    by (auto split: option.splits)
  from f have "step l s0 = Some s1" by (simp add: fire_def split: if_splits)
  with Cons.prems(1) have "P s1" by (rule assms(1))
  then show ?case using r by (rule Cons.IH)
qed

lemma step_const:
  assumes "step l s = Some s'"
  shows "subject s' = subject s \<and> maxConcurrent s' = maxConcurrent s"
  using assms by (cases rule: stepE) (simp_all add: upd_defs split: option.splits)

lemma run_const:
  assumes "run sched s0 = Some s"
  shows "subject s = subject s0 \<and> maxConcurrent s = maxConcurrent s0"
  by (rule run_invariant[where P = "\<lambda>s. subject s = subject s0 \<and> maxConcurrent s = maxConcurrent s0",
        OF _ _ assms]) (auto dest: step_const)

subsection \<open>Counting workers\<close>

lemma filter_update_count:
  assumes "i < length xs"
  shows "length (filter P (xs[i := y])) + (if P (xs ! i) then 1 else 0)
     = length (filter P xs) + (if P y then 1 else 0)"
proof -
  have a: "filter P xs = filter P (take i xs @ xs ! i # drop (Suc i) xs)"
    using assms by (simp add: id_take_nth_drop[symmetric])
  have b: "xs[i := y] = take i xs @ y # drop (Suc i) xs"
    using assms by (rule upd_conv_take_nth_drop)
  show ?thesis unfolding a b by simp
qed

lemma holders_update:
  assumes "phase_of i s = Some p"
  shows "length (filter (\<lambda>w. holds_token (w_phase w)) ((workers s)[i := w']))
           + (if holds_token p then 1 else 0)
         = token_holders s + (if holds_token (w_phase w') then 1 else 0)"
  using assms filter_update_count[of i "workers s" "\<lambda>w. holds_token (w_phase w)" w']
  by (auto simp: phase_of_def token_holders_def split: if_splits)

lemma filter_length_mono:
  assumes "\<And>x. P x \<Longrightarrow> Q x"
  shows "length (filter P xs) \<le> length (filter Q xs)"
  using assms by (induction xs) auto

lemma executing_le_holders: "calls_executing s \<le> token_holders s"
  unfolding calls_executing_def token_holders_def
  by (rule filter_length_mono) (simp add: in_call_def)

subsection \<open>The token invariant\<close>

lemma tok_inv_step:
  assumes "tok_inv s" and "step l s = Some s'"
  shows "tok_inv s'"
  using assms(2)
proof (cases rule: stepE)
  case (WRelease i r)
  with assms(1) holders_update[OF WRelease(2), of "(workers s ! i)\<lparr>w_phase := W_returned r\<rparr>"]
  show ?thesis
    by (auto simp: tok_inv_def token_holders_def loop_tokens_def sem_size_def upd_defs)
next
  case (Call i)
  with assms(1) holders_update[OF Call(2), of "(workers s ! i)\<lparr>w_phase := W_in_call\<rparr>"]
  show ?thesis
    by (auto simp: tok_inv_def token_holders_def loop_tokens_def sem_size_def upd_defs)
next
  case (Return i out)
  with assms(1) holders_update[OF Return(2), of "(workers s ! i)
                  \<lparr>w_phase := (case out of
                                Failed err \<Rightarrow> W_release (Some err)
                              | Responded m \<Rightarrow> if m = MEMBER then W_add else W_release None),
                   w_outcome := Some out\<rparr>"]
  show ?thesis
    by (auto simp: tok_inv_def token_holders_def loop_tokens_def sem_size_def upd_defs
        split: check_outcome.splits)
next
  case (Add i)
  with assms(1) holders_update[OF Add(2), of "(workers s ! i)\<lparr>w_phase := W_release None\<rparr>"]
  show ?thesis
    by (auto simp: tok_inv_def token_holders_def loop_tokens_def sem_size_def upd_defs)
next
  case (WReport i err)
  with assms(1) holders_update[OF WReport(2), of "(workers s ! i)\<lparr>w_phase := W_exiting\<rparr>"]
  show ?thesis
    by (auto simp: tok_inv_def token_holders_def loop_tokens_def sem_size_def upd_defs
        split: option.splits)
next
  case (WExit i)
  then show ?thesis
  proof (elim disjE)
    assume p: "phase_of i s = Some (W_returned None)"
    with WExit assms(1) holders_update[OF p, of "(workers s ! i)\<lparr>w_phase := W_done\<rparr>"]
    show ?thesis
      by (auto simp: tok_inv_def token_holders_def loop_tokens_def sem_size_def upd_defs)
  next
    assume p: "phase_of i s = Some W_exiting"
    with WExit assms(1) holders_update[OF p, of "(workers s ! i)\<lparr>w_phase := W_done\<rparr>"]
    show ?thesis
      by (auto simp: tok_inv_def token_holders_def loop_tokens_def sem_size_def upd_defs)
  qed
qed (use assms(1) in \<open>auto simp: tok_inv_def token_holders_def loop_tokens_def sem_size_def
      sem_free_def upd_defs split: option.splits\<close>)

lemma tok_inv_init: "tok_inv (system subj maxc prog)"
  by (simp add: tok_inv_def token_holders_def loop_tokens_def run_defs)

lemma tok_inv_run:
  assumes "run sched (system subj maxc prog) = Some s"
  shows "tok_inv s"
  by (rule run_invariant[where P = tok_inv, OF tok_inv_step tok_inv_init assms])

lemma sem_size_run:
  assumes "run sched (system subj maxc prog) = Some s"
  shows "sem_size s = unat maxc"
  using run_const[OF assms] by (simp add: run_defs)

subsection \<open>Invariants of the run\<close>

lemma active_update:
  assumes "phase_of i s = Some p"
  shows "length (filter active ((workers s)[i := w']))
           + (if p \<noteq> W_done then 1 else 0)
         = length (filter active (workers s)) + (if active w' then 1 else 0)"
  using assms filter_update_count[of i "workers s" active w']
  by (auto simp: phase_of_def active_def split: if_splits)

lemma wg_inv_step:
  assumes "wg_inv s" and "step l s = Some s'"
  shows "wg_inv s'"
  using assms(2)
proof (cases rule: stepE)
  case (WRelease i r)
  with assms(1) active_update[OF WRelease(2), of "(workers s ! i)\<lparr>w_phase := W_returned r\<rparr>"]
  show ?thesis
    by (auto simp: wg_inv_def loop_active_def active_def upd_defs)
next
  case (Call i)
  with assms(1) active_update[OF Call(2), of "(workers s ! i)\<lparr>w_phase := W_in_call\<rparr>"]
  show ?thesis
    by (auto simp: wg_inv_def loop_active_def active_def upd_defs)
next
  case (Return i out)
  with assms(1) active_update[OF Return(2), of "(workers s ! i)
                  \<lparr>w_phase := (case out of
                                Failed err \<Rightarrow> W_release (Some err)
                              | Responded m \<Rightarrow> if m = MEMBER then W_add else W_release None),
                   w_outcome := Some out\<rparr>"]
  show ?thesis
    by (auto simp: wg_inv_def loop_active_def active_def upd_defs
        split: check_outcome.splits)
next
  case (Add i)
  with assms(1) active_update[OF Add(2), of "(workers s ! i)\<lparr>w_phase := W_release None\<rparr>"]
  show ?thesis
    by (auto simp: wg_inv_def loop_active_def active_def upd_defs)
next
  case (WReport i err)
  with assms(1) active_update[OF WReport(2), of "(workers s ! i)\<lparr>w_phase := W_exiting\<rparr>"]
  show ?thesis
    by (auto simp: wg_inv_def loop_active_def active_def upd_defs
        split: option.splits)
next
  case (WExit i)
  then show ?thesis
  proof (elim disjE)
    assume p: "phase_of i s = Some (W_returned None)"
    with WExit assms(1) active_update[OF p, of "(workers s ! i)\<lparr>w_phase := W_done\<rparr>"]
    show ?thesis
      by (auto simp: wg_inv_def loop_active_def active_def upd_defs)
  next
    assume p: "phase_of i s = Some W_exiting"
    with WExit assms(1) active_update[OF p, of "(workers s ! i)\<lparr>w_phase := W_done\<rparr>"]
    show ?thesis
      by (auto simp: wg_inv_def loop_active_def active_def upd_defs)
  qed
qed (use assms(1) in \<open>auto simp: wg_inv_def loop_active_def active_def upd_defs split: option.splits if_splits\<close>)

lemma phase_outcome_ok_mono: "phase_outcome_ok fs p out \<Longrightarrow> phase_outcome_ok (fs @ [e]) p out"
  by (cases "(fs, p, out)" rule: phase_outcome_ok.cases) auto

lemma phase_ofD:
  "phase_of i s = Some p \<Longrightarrow> i < length (workers s) \<and> w_phase (workers s ! i) = p"
  by (simp add: phase_of_def split: if_splits)

lemma wk_nth:
  "wk_inv s \<Longrightarrow> phase_of i s = Some p \<Longrightarrow> phase_outcome_ok (failures s) p (w_outcome (workers s ! i))"
  by (auto simp: wk_inv_def phase_of_def split: if_splits)

lemma wk_inv_step:
  assumes "wk_inv s" and "step l s = Some s'"
  shows "wk_inv s'"
  using assms(2)
proof (cases rule: stepE)
  case (WRelease i r)
  with assms(1) wk_nth[OF assms(1) WRelease(2)] phase_ofD[OF WRelease(2)] show ?thesis
    by (cases r) (auto simp: wk_inv_def upd_defs nth_list_update)
next
  case (Call i)
  with assms(1) wk_nth[OF assms(1) Call(2)] phase_ofD[OF Call(2)] show ?thesis
    by (auto simp: wk_inv_def upd_defs nth_list_update)
next
  case (Return i out)
  with assms(1) wk_nth[OF assms(1) Return(2)] phase_ofD[OF Return(2)] show ?thesis
    by (auto simp: wk_inv_def upd_defs nth_list_update split: check_outcome.splits)
next
  case (Add i)
  with assms(1) wk_nth[OF assms(1) Add(2)] phase_ofD[OF Add(2)] show ?thesis
    by (auto simp: wk_inv_def upd_defs nth_list_update)
next
  case (WReport i err)
  with assms(1) wk_nth[OF assms(1) WReport(2)] phase_ofD[OF WReport(2)] show ?thesis
    by (auto simp: wk_inv_def upd_defs nth_list_update phase_outcome_ok_mono split: option.splits)
next
  case (WExit i)
  with assms(1) show ?thesis using wk_nth[OF assms(1), of i] phase_ofD[of i s]
    by (auto simp: wk_inv_def upd_defs nth_list_update)
next
  case (LReport err)
  with assms(1) show ?thesis
    by (auto simp: wk_inv_def upd_defs phase_outcome_ok_mono split: option.splits)
next
  case (Go req)
  with assms(1) show ?thesis
    by (auto simp: wk_inv_def nth_append)
qed (use assms(1) in \<open>auto simp: wk_inv_def upd_defs split: option.splits\<close>)

lemma err_inv_step:
  assumes "err_inv s" and "step l s = Some s'"
  shows "err_inv s'"
  using assms(2)
  by (cases rule: stepE)
     (use assms(1) in \<open>auto simp: err_inv_def upd_defs split: option.splits list.splits\<close>)

lemma lp_inv_step:
  assumes "lp_inv s" and "step l s = Some s'"
  shows "lp_inv s'"
  using assms(2)
  by (cases rule: stepE)
     (use assms(1) in \<open>auto simp: lp_inv_def upd_defs split: option.splits\<close>)

lemma cl_inv_step:
  assumes "cl_inv s" and "step l s = Some s'"
  shows "cl_inv s'"
  using assms(2)
  by (cases rule: stepE)
     (use assms(1) in \<open>auto simp: cl_inv_def upd_defs split: option.splits\<close>)

lemma all_done:
  assumes "wg_inv s" and "g_wg s = 0" and "phase_of i s = Some p"
  shows "p = W_done"
proof -
  from assms(1,2) have "filter active (workers s) = []" by (simp add: wg_inv_def)
  then have "\<forall>w \<in> set (workers s). \<not> active w" by (simp add: filter_empty_conv)
  with phase_ofD[OF assms(3)] show ?thesis by (auto simp: active_def)
qed

lemma loop_done:
  assumes "wg_inv s" and "g_wg s = 0"
  shows "loop s = L_idle \<or> loop s = L_done"
  using assms by (simp add: wg_inv_def loop_active_def split: if_splits)

lemma Finish_return_cong:
  "g_err s' = g_err s \<Longrightarrow> results s' = results s \<Longrightarrow> Finish_return s' = Finish_return s"
  by (simp add: Finish_return_def split: option.splits)

lemma fin_inv_step:
  assumes "fin_inv s" and "wg_inv s" and "cl_inv s" and "step l s = Some s'"
  shows "fin_inv s'"
proof (cases "finish_result s")
  case None
  from assms(4) show ?thesis
  proof (cases rule: stepE)
    case Wait
    with loop_done[OF assms(2)] assms(3) show ?thesis
      by (auto simp: fin_inv_def cl_inv_def upd_defs Finish_return_def split: option.splits)
  qed (use None in \<open>auto simp: fin_inv_def upd_defs split: option.splits\<close>)
next
  case (Some r)
  with assms(1) have d: "g_wg s = 0" "loop s = L_done" "r = Finish_return s"
    by (auto simp: fin_inv_def)
  from Some assms(3) have c: "\<not> in_finish s" by (simp add: cl_inv_def)
  note ad = all_done[OF assms(2) d(1)]
  from assms(4) show ?thesis
    by (cases rule: stepE)
       (use Some d c ad in \<open>auto simp: fin_inv_def upd_defs Finish_return_def split: option.splits\<close>)
qed

lemma failed_with_update:
  assumes "failed_with e s" and "i < length (workers s)"
    and "w_outcome (workers s ! i) \<noteq> None \<Longrightarrow> w_outcome w' = w_outcome (workers s ! i)"
  shows "\<exists>j < length (workers s). w_outcome ((workers s)[i := w'] ! j) = Some (Failed e)"
proof -
  from assms(1) obtain j where j: "j < length (workers s)" "w_outcome (workers s ! j) = Some (Failed e)"
    by (auto simp: failed_with_def)
  show ?thesis
  proof (cases "j = i")
    case True
    with j assms(2,3) show ?thesis by (intro exI[of _ i]) simp
  next
    case False
    with j show ?thesis by (intro exI[of _ j]) simp
  qed
qed

lemma cx_inv_step:
  assumes "cx_inv s" and "wk_inv s" and "fin_inv s" and "step l s = Some s'"
  shows "cx_inv s'"
  using assms(4)
proof (cases rule: stepE)
  case (WRelease i r)
  with assms(1) phase_ofD[OF WRelease(2)]
    failed_with_update[of "hd (failures s)" s i "(workers s ! i)\<lparr>w_phase := W_returned r\<rparr>"]
  show ?thesis
    by (auto simp: cx_inv_def upd_defs failed_with_def)
next
  case (Call i)
  with assms(1) phase_ofD[OF Call(2)]
    failed_with_update[of "hd (failures s)" s i "(workers s ! i)\<lparr>w_phase := W_in_call\<rparr>"]
  show ?thesis
    by (auto simp: cx_inv_def upd_defs failed_with_def)
next
  case (Return i out)
  let ?w = "(workers s ! i)
                  \<lparr>w_phase := (case out of
                                Failed err \<Rightarrow> W_release (Some err)
                              | Responded m \<Rightarrow> if m = MEMBER then W_add else W_release None),
                   w_outcome := Some out\<rparr>"
  from wk_nth[OF assms(2) Return(2)] have "w_outcome (workers s ! i) = None" by simp
  with Return assms(1) phase_ofD[OF Return(2)]
    failed_with_update[of "hd (failures s)" s i ?w]
  show ?thesis
    by (auto simp: cx_inv_def failed_with_def)
next
  case (Add i)
  with assms(1) phase_ofD[OF Add(2)]
    failed_with_update[of "hd (failures s)" s i "(workers s ! i)\<lparr>w_phase := W_release None\<rparr>"]
  show ?thesis
    by (auto simp: cx_inv_def upd_defs failed_with_def)
next
  case (WReport i err)
  from wk_nth[OF assms(2) WReport(2)] have o: "w_outcome (workers s ! i) = Some (Failed err)" by simp
  show ?thesis
  proof (cases "failures s")
    case Nil
    with WReport assms(1) phase_ofD[OF WReport(2)] o show ?thesis
      by (auto simp: cx_inv_def upd_defs failed_with_def split: option.splits intro!: exI[of _ i])
  next
    case (Cons f fs)
    with WReport assms(1) phase_ofD[OF WReport(2)]
      failed_with_update[of "hd (failures s)" s i "(workers s ! i)\<lparr>w_phase := W_exiting\<rparr>"]
    show ?thesis
      by (auto simp: cx_inv_def upd_defs failed_with_def split: option.splits)
  qed
next
  case (WExit i)
  with assms(1) phase_ofD[of i s]
    failed_with_update[of "hd (failures s)" s i "(workers s ! i)\<lparr>w_phase := W_done\<rparr>"]
  show ?thesis
    by (auto simp: cx_inv_def upd_defs failed_with_def)
next
  case (LReport err)
  with assms(1,3) show ?thesis
    by (cases "failures s") (auto simp: cx_inv_def fin_inv_def upd_defs failed_with_def split: option.splits)
next
  case (Go req)
  with assms(1) show ?thesis
    by (auto simp: cx_inv_def failed_with_def nth_append intro: less_SucI)
qed (use assms(1) in \<open>auto simp: cx_inv_def upd_defs failed_with_def split: option.splits\<close>)

lemma requests_of_append: "requests_of subj (xs @ ys) = requests_of subj xs @ requests_of subj ys"
  by (induction subj xs rule: requests_of.induct) auto

lemma map_req_update:
  "w_req w' = w_req (xs ! i) \<Longrightarrow> map w_req (xs[i := w']) = map w_req xs"
  by (metis list_update_id map_update)

lemma called_update:
  assumes "phase_of i s = Some p"
  shows "length (filter called ((workers s)[i := w']))
           + (if p \<noteq> W_call then 1 else 0)
         = length (filter called (workers s)) + (if called w' then 1 else 0)"
  using assms filter_update_count[of i "workers s" called w']
  by (auto simp: phase_of_def called_def split: if_splits)

lemma req_inv_step:
  assumes "req_inv s" and "step l s = Some s'"
  shows "req_inv s'"
  using assms(2)
proof (cases rule: stepE)
  case (WRelease i r)
  with assms(1) called_update[OF WRelease(2), of "(workers s ! i)\<lparr>w_phase := W_returned r\<rparr>"]
  show ?thesis
    by (auto simp: req_inv_def loop_request_def called_def upd_defs map_req_update)
next
  case (Call i)
  with assms(1) phase_ofD[OF Call(2)] called_update[OF Call(2), of "(workers s ! i)\<lparr>w_phase := W_in_call\<rparr>"]
  show ?thesis
    by (auto simp: req_inv_def loop_request_def called_def upd_defs map_req_update)
next
  case (Return i out)
  with assms(1) called_update[OF Return(2), of "(workers s ! i)
                  \<lparr>w_phase := (case out of
                                Failed err \<Rightarrow> W_release (Some err)
                              | Responded m \<Rightarrow> if m = MEMBER then W_add else W_release None),
                   w_outcome := Some out\<rparr>"]
  show ?thesis
    by (auto simp: req_inv_def loop_request_def called_def map_req_update split: check_outcome.splits)
next
  case (Add i)
  with assms(1) called_update[OF Add(2), of "(workers s ! i)\<lparr>w_phase := W_release None\<rparr>"]
  show ?thesis
    by (auto simp: req_inv_def loop_request_def called_def upd_defs map_req_update)
next
  case (WReport i err)
  with assms(1) called_update[OF WReport(2), of "(workers s ! i)\<lparr>w_phase := W_exiting\<rparr>"]
  show ?thesis
    by (auto simp: req_inv_def loop_request_def called_def upd_defs map_req_update split: option.splits)
next
  case (WExit i)
  then show ?thesis
  proof (elim disjE)
    assume p: "phase_of i s = Some (W_returned None)"
    with WExit assms(1) called_update[OF p, of "(workers s ! i)\<lparr>w_phase := W_done\<rparr>"]
    show ?thesis
      by (auto simp: req_inv_def loop_request_def called_def upd_defs map_req_update)
  next
    assume p: "phase_of i s = Some W_exiting"
    with WExit assms(1) called_update[OF p, of "(workers s ! i)\<lparr>w_phase := W_done\<rparr>"]
    show ?thesis
      by (auto simp: req_inv_def loop_request_def called_def upd_defs map_req_update)
  qed
next
  case (Send r m rest)
  with assms(1) show ?thesis
    by (auto simp: req_inv_def loop_request_def requests_of_append upd_defs)
next
  case (Close rest)
  with assms(1) show ?thesis
    by (auto simp: req_inv_def loop_request_def requests_of_append split: loop_phase.splits)
next
  case (Go req)
  with assms(1) show ?thesis
    by (auto simp: req_inv_def loop_request_def called_def)
qed (use assms(1) in \<open>auto simp: req_inv_def loop_request_def upd_defs split: option.splits\<close>)

lemma disp_inv_step:
  assumes "disp_inv s" and "step l s = Some s'"
  shows "disp_inv s'"
  using assms(2)
proof (cases rule: stepE)
  case (WRelease i r)
  with assms(1) called_update[OF WRelease(2), of "(workers s ! i)\<lparr>w_phase := W_returned r\<rparr>"]
  show ?thesis
    by (auto simp: disp_inv_def loop_request_def called_def upd_defs map_req_update)
next
  case (Call i)
  with assms(1) phase_ofD[OF Call(2)] called_update[OF Call(2), of "(workers s ! i)\<lparr>w_phase := W_in_call\<rparr>"]
  show ?thesis
    by (auto simp: disp_inv_def loop_request_def called_def upd_defs map_req_update)
next
  case (Return i out)
  with assms(1) called_update[OF Return(2), of "(workers s ! i)
                  \<lparr>w_phase := (case out of
                                Failed err \<Rightarrow> W_release (Some err)
                              | Responded m \<Rightarrow> if m = MEMBER then W_add else W_release None),
                   w_outcome := Some out\<rparr>"]
  show ?thesis
    by (auto simp: disp_inv_def loop_request_def called_def map_req_update split: check_outcome.splits)
next
  case (Add i)
  with assms(1) called_update[OF Add(2), of "(workers s ! i)\<lparr>w_phase := W_release None\<rparr>"]
  show ?thesis
    by (auto simp: disp_inv_def loop_request_def called_def upd_defs map_req_update)
next
  case (WReport i err)
  with assms(1) called_update[OF WReport(2), of "(workers s ! i)\<lparr>w_phase := W_exiting\<rparr>"]
  show ?thesis
    by (auto simp: disp_inv_def loop_request_def called_def upd_defs map_req_update split: option.splits)
next
  case (WExit i)
  then show ?thesis
  proof (elim disjE)
    assume p: "phase_of i s = Some (W_returned None)"
    with WExit assms(1) called_update[OF p, of "(workers s ! i)\<lparr>w_phase := W_done\<rparr>"]
    show ?thesis
      by (auto simp: disp_inv_def loop_request_def called_def upd_defs map_req_update)
  next
    assume p: "phase_of i s = Some W_exiting"
    with WExit assms(1) called_update[OF p, of "(workers s ! i)\<lparr>w_phase := W_done\<rparr>"]
    show ?thesis
      by (auto simp: disp_inv_def loop_request_def called_def upd_defs map_req_update)
  qed
next
  case (Go req)
  with assms(1) show ?thesis
    by (auto simp: disp_inv_def loop_request_def called_def)
qed (use assms(1) in \<open>auto simp: disp_inv_def loop_request_def upd_defs split: option.splits\<close>)

lemma image_filter_update:
  assumes "i < length xs" and "P (xs ! i) \<Longrightarrow> P y \<and> f y = f (xs ! i)"
  shows "f ` {w \<in> set (xs[i := y]). P w} = f ` {w \<in> set xs. P w} \<union> (if P y then {f y} else {})"
proof -
  define A where "A = set (take i xs) \<union> set (drop (Suc i) xs)"
  have a: "set xs = insert (xs ! i) A"
  proof -
    have "set xs = set (take i xs @ xs ! i # drop (Suc i) xs)"
      using assms(1) by (simp add: id_take_nth_drop[symmetric])
    then show ?thesis by (simp add: A_def)
  qed
  have b: "set (xs[i := y]) = insert y A"
    using assms(1) by (simp add: upd_conv_take_nth_drop A_def)
  have l: "{w \<in> insert y A. P w} = (if P y then {y} else {}) \<union> {w \<in> A. P w}" by auto
  have r: "{w \<in> insert (xs ! i) A. P w} = (if P (xs ! i) then {xs ! i} else {}) \<union> {w \<in> A. P w}" by auto
  show ?thesis unfolding a b l r using assms(2) by (auto simp: image_Un)
qed

lemma res_update:
  assumes "res_inv s" and "phase_of i s = Some p"
    and "inserted (workers s ! i) \<Longrightarrow> inserted w'" and "w_req w' = w_req (workers s ! i)"
  shows "(\<lambda>w. ObjectAndRelation (w_req w)) ` {w \<in> set ((workers s)[i := w']). inserted w}
         = results s \<union> (if inserted w' \<and> \<not> inserted (workers s ! i)
                           then {ObjectAndRelation (w_req (workers s ! i))} else {})"
proof -
  note d = phase_ofD[OF assms(2)]
  have u: "(\<lambda>w. ObjectAndRelation (w_req w)) ` {w \<in> set ((workers s)[i := w']). inserted w}
         = results s \<union> (if inserted w' then {ObjectAndRelation (w_req (workers s ! i))} else {})"
    using image_filter_update[of i "workers s" inserted w' "\<lambda>w. ObjectAndRelation (w_req w)"]
      assms d by (simp add: res_inv_def)
  have "inserted (workers s ! i) \<Longrightarrow> ObjectAndRelation (w_req (workers s ! i)) \<in> results s"
    using assms(1) d nth_mem[of i "workers s"] by (auto simp: res_inv_def)
  with u show ?thesis by auto
qed

lemma res_inv_updI:
  assumes "res_inv s" and "phase_of i s = Some p"
    and "workers s' = (workers s)[i := w']"
    and "w_req w' = w_req (workers s ! i)"
    and "inserted (workers s ! i) \<Longrightarrow> inserted w'"
    and "results s' = results s \<union> (if inserted w' \<and> \<not> inserted (workers s ! i)
                           then {ObjectAndRelation (w_req (workers s ! i))} else {})"
  shows "res_inv s'"
  unfolding res_inv_def assms(3) assms(6)
  using res_update[OF assms(1,2,5,4)] by simp

lemma res_inv_step:
  assumes "res_inv s" and "wk_inv s" and "step l s = Some s'"
  shows "res_inv s'"
  using assms(3)
proof (cases rule: stepE)
  case (WRelease i r)
  note d = phase_ofD[OF WRelease(2)]
  show ?thesis
    by (rule res_inv_updI[OF assms(1) WRelease(2), where w' = "(workers s ! i)\<lparr>w_phase := W_returned r\<rparr>"])
       (use WRelease d in \<open>simp_all add: inserted_def upd_defs\<close>)
next
  case (Call i)
  note d = phase_ofD[OF Call(2)]
  show ?thesis
    by (rule res_inv_updI[OF assms(1) Call(2), where w' = "(workers s ! i)\<lparr>w_phase := W_in_call\<rparr>"])
       (use Call d in \<open>simp_all add: inserted_def upd_defs\<close>)
next
  case (Return i out)
  note d = phase_ofD[OF Return(2)]
  note k = wk_nth[OF assms(2) Return(2)]
  show ?thesis
    by (rule res_inv_updI[OF assms(1) Return(2), where w' = "(workers s ! i)
                  \<lparr>w_phase := (case out of
                                Failed err \<Rightarrow> W_release (Some err)
                              | Responded m \<Rightarrow> if m = MEMBER then W_add else W_release None),
                   w_outcome := Some out\<rparr>"])
       (use Return d k in \<open>auto simp: inserted_def split: check_outcome.splits\<close>)
next
  case (Add i)
  note d = phase_ofD[OF Add(2)]
  note k = wk_nth[OF assms(2) Add(2)]
  show ?thesis
    by (rule res_inv_updI[OF assms(1) Add(2), where w' = "(workers s ! i)\<lparr>w_phase := W_release None\<rparr>"])
       (use Add d k in \<open>simp_all add: inserted_def upd_defs\<close>)
next
  case (WReport i err)
  note d = phase_ofD[OF WReport(2)]
  show ?thesis
    by (rule res_inv_updI[OF assms(1) WReport(2), where w' = "(workers s ! i)\<lparr>w_phase := W_exiting\<rparr>"])
       (use WReport d in \<open>simp_all add: inserted_def upd_defs split: option.splits\<close>)
next
  case (WExit i)
  from WExit(2) obtain p where p: "phase_of i s = Some p" "p = W_returned None \<or> p = W_exiting"
    by auto
  note d = phase_ofD[OF p(1)]
  show ?thesis
    by (rule res_inv_updI[OF assms(1) p(1), where w' = "(workers s ! i)\<lparr>w_phase := W_done\<rparr>"])
       (use WExit d p(2) in \<open>auto simp: inserted_def upd_defs\<close>)
next
  case (Go req)
  with assms(1) show ?thesis
    by (auto simp: res_inv_def inserted_def)
qed (use assms(1) in \<open>simp_all add: res_inv_def upd_defs split: option.splits\<close>)

subsection \<open>The combined invariant\<close>

lemma holder_pos:
  assumes "phase_of i s = Some p" and "holds_token p"
  shows "0 < token_holders s"
proof -
  from phase_ofD[OF assms(1)] assms(2) have "workers s ! i \<in> set (filter (\<lambda>w. holds_token (w_phase w)) (workers s))"
    by simp
  then show ?thesis unfolding token_holders_def by (auto simp: length_greater_0_conv simp del: set_filter)
qed

lemma active_pos:
  assumes "phase_of i s = Some p" and "p \<noteq> W_done"
  shows "0 < length (filter active (workers s))"
proof -
  from phase_ofD[OF assms(1)] assms(2) have "workers s ! i \<in> set (filter active (workers s))"
    by (simp add: active_def)
  then show ?thesis by (auto simp: length_greater_0_conv simp del: set_filter)
qed

lemma np_inv_step:
  assumes "np_inv s" and "tok_inv s" and "wg_inv s" and "cl_inv s" and "step l s = Some s'"
  shows "np_inv s'"
  using assms(5)
proof (cases rule: stepE)
  case (WRelease i r)
  with holder_pos[OF WRelease(2)] assms(1,2) show ?thesis
    by (auto simp: np_inv_def tok_inv_def upd_defs)
next
  case LRelease
  with assms(1,2) show ?thesis
    by (auto simp: np_inv_def tok_inv_def loop_tokens_def upd_defs)
next
  case (WExit i)
  then obtain p where p: "phase_of i s = Some p" "p \<noteq> W_done" by auto
  with WExit active_pos[OF p] assms(1,3) show ?thesis
    by (auto simp: np_inv_def wg_inv_def upd_defs)
next
  case LExit
  with assms(1,3) show ?thesis
    by (auto simp: np_inv_def wg_inv_def loop_active_def upd_defs)
qed (use assms(1,4) in \<open>auto simp: np_inv_def cl_inv_def upd_defs split: option.splits\<close>)

lemma inv_step:
  assumes "inv s" and "step l s = Some s'"
  shows "inv s'"
  using assms unfolding inv_def
  by (intro conjI)
     (blast intro: tok_inv_step wg_inv_step wk_inv_step err_inv_step lp_inv_step cl_inv_step
        fin_inv_step cx_inv_step req_inv_step disp_inv_step res_inv_step np_inv_step)+

lemma inv_init: "inv (system subj maxc prog)"
  by (simp add: inv_def tok_inv_def wg_inv_def wk_inv_def err_inv_def lp_inv_def cl_inv_def
      fin_inv_def cx_inv_def req_inv_def disp_inv_def res_inv_def np_inv_def
      token_holders_def loop_tokens_def loop_active_def loop_request_def run_defs)

lemma inv_run:
  assumes "run sched (system subj maxc prog) = Some s"
  shows "inv s"
  by (rule run_invariant[where P = inv, OF inv_step inv_init assms])

lemma prog_step:
  assumes "issued s @ pending s = prog" and "step l s = Some s'"
  shows "issued s' @ pending s' = prog"
  using assms(2)
  by (cases rule: stepE) (use assms(1) in \<open>auto simp: upd_defs split: option.splits\<close>)

lemma prog_init: "issued (system subj maxc prog) @ pending (system subj maxc prog) = prog"
  by (simp add: system_def client_def NewParallelChecker_def)



text \<open>After Finish has returned every goroutine has exited.\<close>

lemma finished_all_done:
  assumes "inv s" and "finish_result s = Some r"
  shows "loop s = L_done" and "\<forall>w \<in> set (workers s). w_phase w = W_done"
    and "r = Finish_return s"
proof -
  from assms have f: "g_wg s = 0" "loop s = L_done" "r = Finish_return s"
    by (auto simp: inv_def fin_inv_def)
  from assms(1) have w: "wg_inv s" by (simp add: inv_def)
  show "loop s = L_done" by (rule f(2))
  show "r = Finish_return s" by (rule f(3))
  show "\<forall>w \<in> set (workers s). w_phase w = W_done"
  proof
    fix w assume "w \<in> set (workers s)"
    then obtain i where "i < length (workers s)" "workers s ! i = w"
      by (auto simp: in_set_conv_nth)
    then have "phase_of i s = Some (w_phase w)" by (simp add: phase_of_def)
    from all_done[OF w f(1) this] show "w_phase w = W_done" .
  qed
qed



lemma after_finish_step:
  assumes "inv s" and "finish_result s = Some r" and "step l s = Some s'"
  shows "workers s' = workers s \<and> results s' = results s \<and> pending s' = pending s
       \<and> issued s' = issued s \<and> finish_result s' = finish_result s \<and> g_err s' = g_err s
       \<and> (l = Client_Send \<or> l = Client_Close \<or> (\<exists>e. l = Ctx_Cancel e))"
proof -
  from assms(1,2) have d: "g_wg s = 0" "loop s = L_done" by (auto simp: inv_def fin_inv_def)
  from assms(1,2) have c: "\<not> in_finish s" "toCheck_closed s" by (auto simp: inv_def cl_inv_def)
  from assms(1) have "wg_inv s" by (simp add: inv_def)
  note ad = all_done[OF this d(1)]
  from assms(3) show ?thesis
    by (cases rule: stepE) (use d c ad in \<open>auto simp: upd_defs split: option.splits\<close>)
qed


lemma finished_members:
  assumes "inv s" and "finish_result s = Some r"
  shows "results s = member_resources s"
proof -
  note fd = finished_all_done[OF assms]
  from fd(2) have "{w \<in> set (workers s). inserted w}
      = {w \<in> set (workers s). w_outcome w = Some (Responded MEMBER)}"
    by (auto simp: inserted_def)
  with assms(1) show ?thesis by (simp add: inv_def res_inv_def member_resources_def)
qed

lemmas eval_defs = run_defs upd_defs subj_U_def res_A_def res_B_def res_C_def meta0_def

lemmas ex_defs = prog_ABC_def sched_ABC_def prog_A_def sched_A_blocked_def sched_A_cancelled_def
  sched_A_call_def sched_finish_def prog_FQ_def prog_FF_def

subsection \<open>A ceiling of zero; a program without checks\<close>

lemma z_inv_step:
  assumes "z_inv s" and "step l s = Some s'"
  shows "z_inv s'"
  using assms(2)
  by (cases rule: stepE)
     (use assms(1) in \<open>auto simp: z_inv_def upd_defs sem_free_def sem_size_def phase_of_def
        split: option.splits\<close>)

lemma z_inv_init: "z_inv (system subj 0 prog)"
  by (simp add: z_inv_def system_def client_def NewParallelChecker_def)

lemma z_inv_run:
  assumes "run sched (system subj 0 prog) = Some s"
  shows "z_inv s"
  by (rule run_invariant[where P = z_inv, OF z_inv_step z_inv_init assms])

lemma zero_finish:
  assumes "inv s" and "z_inv s" and "finish_result s = Some r"
  shows "\<exists>e. ctx_err s = Some e \<and> r = (None, Some e)"
proof -
  note fd = finished_all_done[OF assms(1,3)]
  from assms(1,2) fd(1) have ne: "failures s \<noteq> []" by (auto simp: inv_def lp_inv_def z_inv_def)
  with assms(1) have g: "g_err s = Some (hd (failures s))"
    by (cases "failures s") (auto simp: inv_def err_inv_def)
  from assms(2) have "\<not> failed_with (hd (failures s)) s" by (simp add: failed_with_def z_inv_def)
  with assms(1) ne have "ctx_err s = Some (hd (failures s))" by (auto simp: inv_def cx_inv_def)
  with g fd(3) show ?thesis by (simp add: Finish_return_def)
qed

lemma zc_inv_step:
  assumes "zc_inv s" and "cl_inv s" and "issued s @ pending s = Finish # rest"
    and "step l s = Some s'"
  shows "zc_inv s'"
  using assms(4)
  by (cases rule: stepE)
     (use assms(1,2,3) in \<open>auto simp: zc_inv_def cl_inv_def upd_defs phase_of_def
        split: option.splits\<close>)

lemma zc_all_step:
  assumes "zc_all rest s" and "step l s = Some s'"
  shows "zc_all rest s'"
  using assms inv_step[of s l s'] prog_step[of s "Finish # rest" l s']
    zc_inv_step[of s rest l s']
  by (simp add: zc_all_def inv_def)

lemma zc_all_init: "zc_all rest (system subj maxc (Finish # rest))"
  using inv_init[of subj maxc "Finish # rest"] prog_init[of subj maxc "Finish # rest"]
  by (simp add: zc_all_def zc_inv_def system_def client_def NewParallelChecker_def)

lemma zc_all_run:
  assumes "run sched (system subj maxc (Finish # rest)) = Some s"
  shows "zc_all rest s"
  by (rule run_invariant[where P = "zc_all rest", OF zc_all_step zc_all_init assms])

text \<open>Without checks and without cancellation nothing has failed and no context is done.\<close>

lemma zc_quiet:
  assumes "zc_all rest s" and "ctx_err s = None"
  shows "failures s = []" and "g_err s = None" and "results s = {}"
    and "finish_result s = None \<Longrightarrow> checkCtx_err s = None"
    and "finish_result s = None \<Longrightarrow> panicked s = None"
proof -
  from assms(1) have i: "inv s" and z: "zc_inv s" by (simp_all add: zc_all_def)
  from z have nf: "\<not> failed_with e s" for e by (simp add: failed_with_def zc_inv_def)
  show f: "failures s = []"
  proof (rule ccontr)
    assume "failures s \<noteq> []"
    with i assms(2) nf show False by (auto simp: inv_def cx_inv_def)
  qed
  with i show "g_err s = None" by (simp add: inv_def err_inv_def)
  from i z show "results s = {}" by (simp add: inv_def res_inv_def zc_inv_def)
  show "checkCtx_err s = None" if "finish_result s = None"
    using that i f assms(2) by (cases "checkCtx_err s") (auto simp: inv_def cx_inv_def)
  show "panicked s = None" if "finish_result s = None"
    using that i by (auto simp: inv_def np_inv_def)
qed

lemma zc_finished:
  assumes "zc_all rest s" and "ctx_err s = None" and "finish_result s = Some r"
  shows "r = (Some {}, None)"
proof -
  from assms(1) have i: "inv s" by (simp add: zc_all_def)
  from finished_all_done(3)[OF i assms(3)] zc_quiet(2,3)[OF assms(1,2)]
  show ?thesis by (simp add: Finish_return_def)
qed

lemma zc_enabled:
  assumes "zc_all rest s" and "ctx_err s = None" and "finish_result s = None"
    and "1 \<le> sem_size s"
  shows "\<exists>l. (\<forall>e. l \<noteq> Ctx_Cancel e) \<and> fire l s \<noteq> None"
proof -
  from assms(1) have i: "inv s" and z: "zc_inv s" and p: "issued s @ pending s = Finish # rest"
    by (simp_all add: zc_all_def)
  note q = zc_quiet[OF assms(1,2)]
  from q(5)[OF assms(3)] have np: "panicked s = None" .
  from i have t: "tok_inv s" and w: "wg_inv s" and c: "cl_inv s" and lp: "lp_inv s"
    by (simp_all add: inv_def)
  from z have h: "token_holders s = 0" by (simp add: token_holders_def zc_inv_def)
  have pend: "pending s = Finish # rest" "loop s \<noteq> L_idle" if "\<not> toCheck_closed s" "loop s \<noteq> L_idle"
    using that c z p by (auto simp: cl_inv_def zc_inv_def)
  show ?thesis
  proof (cases "loop s")
    case L_idle
    then have "fire Client_Start s \<noteq> None" using np by (simp add: fire_def)
    then show ?thesis by blast
  next
    case L_acquire
    with t h have "sem_cur s = 0" by (auto simp: tok_inv_def loop_tokens_def)
    with L_acquire assms(4) np have "fire Loop_Acquire s \<noteq> None"
      by (simp add: fire_def sem_free_def)
    then show ?thesis by blast
  next
    case L_recv
    show ?thesis
    proof (cases "toCheck_closed s")
      case True
      with L_recv np have "fire Loop_RecvClosed s \<noteq> None" by (simp add: fire_def)
      then show ?thesis by blast
    next
      case False
      with pend[OF False] L_recv c np have "fire Client_Close s \<noteq> None"
        by (auto simp: fire_def cl_inv_def)
      then show ?thesis by blast
    qed
  next
    case (L_go req)
    with z show ?thesis by (simp add: zc_inv_def)
  next
    case L_release
    with np have "fire Loop_Release s \<noteq> None" by (simp add: fire_def)
    then show ?thesis by blast
  next
    case L_acquire_all
    with t h have "sem_cur s = 0" by (auto simp: tok_inv_def loop_tokens_def)
    with L_acquire_all np have "fire Loop_Acquire s \<noteq> None"
      by (simp add: fire_def sem_free_def)
    then show ?thesis by blast
  next
    case (L_returned r)
    with np have "fire Loop_Exit s \<noteq> None \<or> fire Loop_Report s \<noteq> None"
      by (cases r) (simp_all add: fire_def)
    then show ?thesis by blast
  next
    case L_exiting
    with np have "fire Loop_Exit s \<noteq> None" by (simp add: fire_def)
    then show ?thesis by blast
  next
    case L_done
    show ?thesis
    proof (cases "in_finish s")
      case True
      from w z L_done have "g_wg s = 0" by (simp add: wg_inv_def loop_active_def zc_inv_def)
      with True np have "fire Client_Wait s \<noteq> None" by (simp add: fire_def)
      then show ?thesis by blast
    next
      case False
      with c assms(3) have nc: "\<not> toCheck_closed s" by (auto simp: cl_inv_def)
      with pend[OF nc] L_done False np have "fire Client_Close s \<noteq> None"
        by (auto simp: fire_def)
      then show ?thesis by blast
    qed
  qed
qed

lemma ctx_err_mono:
  assumes "step l s = Some s'" and "ctx_err s' = None"
  shows "ctx_err s = None"
  using assms
  by (cases rule: stepE) (auto simp: upd_defs split: option.splits if_splits)

lemma finish_result_mono:
  assumes "step l s = Some s'" and "finish_result s' = None"
  shows "finish_result s = None"
  using assms
  by (cases rule: stepE) (auto simp: upd_defs split: option.splits if_splits)

lemma zc_rank_step:
  assumes "zc_all rest s" and "step l s = Some s'" and "ctx_err s' = None"
    and "finish_result s = None"
  shows "Suc (rank s') = rank s"
proof -
  from assms(1) have i: "inv s" and z: "zc_inv s" by (simp_all add: zc_all_def)
  from assms(2,3) have c: "ctx_err s = None" by (rule ctx_err_mono)
  note q = zc_quiet[OF assms(1) c]
  from q(4)[OF assms(4)] have cc: "checkCtx_err s = None" .
  from i q(1) have lp: "loop s \<noteq> L_exiting" "\<And>e. loop s \<noteq> L_returned (Some e)"
    using cc by (auto simp: inv_def lp_inv_def cx_inv_def)
  from i have cl: "cl_inv s" by (simp add: inv_def)
  from assms(1) have p: "issued s @ pending s = Finish # rest" by (simp add: zc_all_def)
  from assms(2) show ?thesis
    by (cases rule: stepE)
       (use z c cc lp cl p assms(3,4) in \<open>auto simp: rank_def client_rank_def zc_inv_def cl_inv_def
          upd_defs phase_of_def split: option.splits\<close>)
qed

lemma run_snoc:
  "run (xs @ [l]) s0 = (case run xs s0 of None \<Rightarrow> None | Some s1 \<Rightarrow> fire l s1)"
  by (induction xs arbitrary: s0) (auto split: option.splits)

lemma zc_rank_init: "rank (system subj maxc prog) = 8"
  by (simp add: rank_def client_rank_def system_def client_def NewParallelChecker_def)

lemma zc_rank_run:
  assumes "run sched (system subj maxc (Finish # rest)) = Some s"
    and "ctx_err s = None" and "finish_result s = None"
  shows "length sched + rank s = 8"
  using assms
proof (induction sched arbitrary: s rule: rev_induct)
  case Nil
  then have "s = system subj maxc (Finish # rest)" by simp
  then show ?case by (simp add: zc_rank_init)
next
  case (snoc l xs)
  from snoc.prems(1) obtain s1 where r: "run xs (system subj maxc (Finish # rest)) = Some s1"
    and f: "fire l s1 = Some s"
    by (auto simp: run_snoc split: option.splits)
  from f have st: "step l s1 = Some s" by (simp add: fire_def split: if_splits)
  from st snoc.prems(2) have c: "ctx_err s1 = None" by (rule ctx_err_mono)
  from st snoc.prems(3) have n: "finish_result s1 = None" by (rule finish_result_mono)
  from snoc.IH[OF r c n] have ih: "length xs + rank s1 = 8" .
  from zc_rank_step[OF zc_all_run[OF r] st snoc.prems(2) n] have "Suc (rank s) = rank s1" .
  with ih show ?case by simp
qed

lemma cc_inv_step:
  assumes "cc_inv s" and "step l s = Some s'"
  shows "cc_inv s'"
  using assms(2)
  by (cases rule: stepE)
     (use assms(1) in \<open>auto simp: cc_inv_def upd_defs split: option.splits if_splits\<close>)

lemma cc_inv_init: "cc_inv (system subj maxc prog)"
  by (simp add: cc_inv_def system_def client_def NewParallelChecker_def)

lemma cc_inv_run:
  assumes "run sched (system subj maxc prog) = Some s"
  shows "cc_inv s"
  by (rule run_invariant[where P = cc_inv, OF cc_inv_step cc_inv_init assms])

lemma zero_waiting_enabled:
  assumes "inv s" and "z_inv s" and "cc_inv s" and "in_finish s" and "ctx_err s \<noteq> None"
  shows "\<exists>l. (\<forall>e. l \<noteq> Ctx_Cancel e) \<and> fire l s \<noteq> None"
proof -
  from assms(1) have c: "cl_inv s" and w: "wg_inv s" and n: "np_inv s" by (simp_all add: inv_def)
  from c assms(4) have f: "finish_result s = None" "loop s \<noteq> L_idle"
    by (cases "finish_result s"; auto simp: cl_inv_def)+
  with n have np: "panicked s = None" by (auto simp: np_inv_def)
  from assms(3,5) obtain err where ce: "checkCtx_err s = Some err" by (auto simp: cc_inv_def)
  from assms(2) f(2) consider "loop s = L_acquire" | e where "loop s = L_returned (Some e)"
    | "loop s = L_exiting" | "loop s = L_done"
    by (auto simp: z_inv_def)
  then show ?thesis
  proof cases
    case 1
    with ce np have "fire Loop_AcquireErr s \<noteq> None" by (simp add: fire_def)
    then show ?thesis by blast
  next
    case 2
    with np have "fire Loop_Report s \<noteq> None" by (simp add: fire_def)
    then show ?thesis by blast
  next
    case 3
    with np have "fire Loop_Exit s \<noteq> None" by (simp add: fire_def)
    then show ?thesis by blast
  next
    case 4
    with w assms(2) have "g_wg s = 0" by (simp add: wg_inv_def loop_active_def z_inv_def)
    with assms(4) np have "fire Client_Wait s \<noteq> None" by (simp add: fire_def)
    then show ?thesis by blast
  qed
qed

lemma zero_waiting_rank:
  assumes "z_inv s" and "cl_inv s" and "in_finish s" and "step l s = Some s'"
  shows "(\<exists>e. l = Ctx_Cancel e) \<or> Suc (z_rank s') = z_rank s"
  using assms(4)
  by (cases rule: stepE)
     (use assms(1,2,3) in \<open>auto simp: z_inv_def cl_inv_def z_rank_def upd_defs phase_of_def
        sem_free_def sem_size_def split: option.splits\<close>)




subsection \<open>Claims\<close>

text \<open>
  C1. After any schedule, for any ceiling and any client program, the number of workers
  inside the backend call is at most \<open>maxConcurrent\<close>: every such worker holds one token,
  the tokens in use are exactly those of the workers that have not yet run their deferred
  release plus those the loop holds (one between its acquisition and the hand-over to a
  worker), and the semaphore never gives out more than \<open>maxConcurrent\<close>.
\<close>

theorem concurrency_ceiling:
  assumes "run sched (system subj maxc prog) = Some s"
  shows "calls_executing s \<le> unat maxc
       \<and> calls_executing s \<le> token_holders s
       \<and> sem_cur s = token_holders s + loop_tokens s
       \<and> sem_cur s \<le> unat maxc"
proof -
  have t: "tok_inv s" using assms by (rule tok_inv_run)
  have n: "sem_size s = unat maxc" using assms by (rule sem_size_run)
  have e: "calls_executing s \<le> token_holders s" by (rule executing_le_holders)
  from t n e show ?thesis by (simp add: tok_inv_def)
qed

theorem concurrency_ceiling_witness:
  "run [Client_Start, Loop_Acquire, Client_Send, Loop_Go, Worker_Call 0]
       (system subj_U 1 [QueueCheck res_A meta0, Finish]) \<noteq> None
   \<and> calls_executing (the (run [Client_Start, Loop_Acquire, Client_Send, Loop_Go, Worker_Call 0]
       (system subj_U 1 [QueueCheck res_A meta0, Finish]))) = 1
   \<and> calls_executing (the (run [Client_Start, Loop_Acquire, Client_Send, Loop_Go, Worker_Call 0]
       (system subj_U 1 [QueueCheck res_A meta0, Finish]))) \<le> unat (1 :: 8 word)"
proof -
  obtain s where r: "run [Client_Start, Loop_Acquire, Client_Send, Loop_Go, Worker_Call 0]
       (system subj_U 1 [QueueCheck res_A meta0, Finish]) = Some s"
    by (simp add: run_defs upd_defs)
  have c: "calls_executing s = 1"
    using r by (auto simp: run_defs upd_defs calls_executing_def in_call_def)
  from concurrency_ceiling[OF r] r c show ?thesis by simp
qed






text \<open>
  C4. Once the loop has re-acquired the full ceiling, the semaphore is full, no worker holds
  a token, and every worker whose outcome was MEMBER has inserted its resource. Whenever
  \<open>Finish\<close> has returned a collector, the loop had re-acquired the full ceiling, every
  worker has exited, the collector is the result set with every MEMBER resource in it, and
  no later step changes the result set or the workers.
\<close>

theorem finish_after_reacquire:
  assumes "run sched (system subj maxc prog) = Some s"
  shows "(reacquired s \<longrightarrow>
            sem_cur s = unat maxc \<and> token_holders s = 0
          \<and> (\<forall>w \<in> set (workers s). \<not> holds_token (w_phase w)
                \<and> (w_outcome w = Some (Responded MEMBER)
                     \<longrightarrow> ObjectAndRelation (w_req w) \<in> results s)))
       \<and> (\<forall>R. finish_result s = Some (Some R, None) \<longrightarrow>
            reacquired s \<and> (\<forall>w \<in> set (workers s). w_phase w = W_done)
          \<and> R = results s \<and> R = member_resources s
          \<and> (\<forall>l s'. fire l s = Some s' \<longrightarrow> results s' = R \<and> workers s' = workers s))"
proof -
  have i: "inv s" using assms(1) by (rule inv_run)
  have n: "sem_size s = unat maxc" using assms by (rule sem_size_run)
  have a: "sem_cur s = unat maxc \<and> token_holders s = 0
          \<and> (\<forall>w \<in> set (workers s). \<not> holds_token (w_phase w)
                \<and> (w_outcome w = Some (Responded MEMBER)
                     \<longrightarrow> ObjectAndRelation (w_req w) \<in> results s))" if re: "reacquired s"
  proof -
    from i re n have t: "sem_cur s = unat maxc" "token_holders s = 0"
      by (auto simp: inv_def tok_inv_def loop_tokens_def)
    from t(2) have h: "\<forall>w \<in> set (workers s). \<not> holds_token (w_phase w)"
      by (simp add: token_holders_def filter_empty_conv)
    have "ObjectAndRelation (w_req w) \<in> results s"
      if w: "w \<in> set (workers s)" and o: "w_outcome w = Some (Responded MEMBER)" for w
    proof -
      from h w have "w_phase w \<noteq> W_add" by auto
      with o have "inserted w" by (simp add: inserted_def)
      with w i show ?thesis by (auto simp: inv_def res_inv_def)
    qed
    with t h show ?thesis by blast
  qed
  have b: "reacquired s \<and> (\<forall>w \<in> set (workers s). w_phase w = W_done)
          \<and> R = results s \<and> R = member_resources s
          \<and> (\<forall>l s'. fire l s = Some s' \<longrightarrow> results s' = R \<and> workers s' = workers s)"
    if f: "finish_result s = Some (Some R, None)" for R
  proof -
    note fd = finished_all_done[OF i f]
    from fd(3) have g: "g_err s = None" "R = results s"
      by (auto simp: Finish_return_def split: option.splits)
    from i g(1) have "failures s = []"
      by (auto simp: inv_def err_inv_def split: list.splits)
    with i fd(1) have re: "reacquired s" by (simp add: inv_def lp_inv_def)
    have st: "results s' = R \<and> workers s' = workers s" if "fire l s = Some s'" for l s'
    proof -
      from that have "step l s = Some s'" by (simp add: fire_def split: if_splits)
      from after_finish_step[OF i f this] g(2) show ?thesis by simp
    qed
    from re fd(2) g(2) finished_members[OF i f] st show ?thesis by blast
  qed
  from a b show ?thesis by blast
qed

theorem finish_after_reacquire_witness:
  "run sched_ABC (system subj_U 2 prog_ABC) \<noteq> None
   \<and> finish_result (the (run sched_ABC (system subj_U 2 prog_ABC)))
       = Some (Some {res_A, res_C}, None)
   \<and> reacquired (the (run sched_ABC (system subj_U 2 prog_ABC)))
   \<and> token_holders (the (run sched_ABC (system subj_U 2 prog_ABC))) = 0
   \<and> results (the (run sched_ABC (system subj_U 2 prog_ABC))) = {res_A, res_C}"
proof -
  define s where "s = the (run sched_ABC (system subj_U 2 prog_ABC))"
  have r: "run sched_ABC (system subj_U 2 prog_ABC) = Some s"
    unfolding s_def by (simp add: ex_defs eval_defs)
  have f: "finish_result s = Some (Some {res_A, res_C}, None)"
    unfolding s_def by (auto simp: ex_defs eval_defs)
  from finish_after_reacquire[OF r] f
  have "reacquired s \<and> token_holders s = 0 \<and> {res_A, res_C} = results s" by blast
  moreover from r have "run sched_ABC (system subj_U 2 prog_ABC) \<noteq> None" by simp
  ultimately show ?thesis using f unfolding s_def by auto
qed



text \<open>
  C8. After \<open>Finish\<close> has been called and has returned, a \<open>QueueCheck\<close> call panics
  with "send on closed channel"; no step delivers the request, creates a worker or changes
  the results.
\<close>

theorem enqueue_after_finish_panics:
  assumes "run sched (system subj maxc prog) = Some s"
    and "Finish \<in> set (issued s)" and "\<not> in_finish s" and "panicked s = None"
    and "pending s = QueueCheck resource meta # rest"
  shows "fire Client_Send s = Some (s\<lparr>panicked := Some ''send on closed channel''\<rparr>)
       \<and> (\<forall>l s'. fire l s = Some s' \<longrightarrow>
             workers s' = workers s \<and> results s' = results s \<and> pending s' = pending s)"
proof -
  have i: "inv s" using assms(1) by (rule inv_run)
  from i assms(2) have c: "toCheck_closed s" "loop s \<noteq> L_idle" by (auto simp: inv_def cl_inv_def)
  from i c(1) assms(3) obtain r where f: "finish_result s = Some r" by (auto simp: inv_def cl_inv_def)
  have a: "fire Client_Send s = Some (s\<lparr>panicked := Some ''send on closed channel''\<rparr>)"
    using c assms(3,4,5) by (simp add: fire_def)
  have "workers s' = workers s \<and> results s' = results s \<and> pending s' = pending s"
    if "fire l s = Some s'" for l s'
  proof -
    from that have "step l s = Some s'" by (simp add: fire_def split: if_splits)
    from after_finish_step[OF i f this] show ?thesis by simp
  qed
  with a show ?thesis by blast
qed

theorem enqueue_after_finish_panics_witness:
  "run sched_finish (system subj_U 1 prog_FQ) \<noteq> None
   \<and> finish_result (the (run sched_finish (system subj_U 1 prog_FQ))) = Some (Some {}, None)
   \<and> fire Client_Send (the (run sched_finish (system subj_U 1 prog_FQ)))
       = Some ((the (run sched_finish (system subj_U 1 prog_FQ)))
                 \<lparr>panicked := Some ''send on closed channel''\<rparr>)"
proof -
  define s where "s = the (run sched_finish (system subj_U 1 prog_FQ))"
  have r: "run sched_finish (system subj_U 1 prog_FQ) = Some s"
    unfolding s_def by (simp add: ex_defs eval_defs)
  have h: "Finish \<in> set (issued s)" "\<not> in_finish s" "panicked s = None"
    "pending s = QueueCheck res_A meta0 # []" "finish_result s = Some (Some {}, None)"
    unfolding s_def by (simp_all add: ex_defs eval_defs)
  from enqueue_after_finish_panics[OF r h(1,2,3,4)]
  have "fire Client_Send s = Some (s\<lparr>panicked := Some ''send on closed channel''\<rparr>)" by blast
  moreover from r have "run sched_finish (system subj_U 1 prog_FQ) \<noteq> None" by simp
  ultimately show ?thesis using h(5) unfolding s_def by blast
qed

text \<open>
  C9. After \<open>Finish\<close> has been called and has returned, a second call of \<open>Finish\<close>
  panics with "close of closed channel", whatever the ceiling, the program and the run so
  far.
\<close>

theorem second_finish_panics:
  assumes "run sched (system subj maxc prog) = Some s"
    and "Finish \<in> set (issued s)" and "\<not> in_finish s" and "panicked s = None"
    and "pending s = Finish # rest"
  shows "fire Client_Close s = Some (s\<lparr>panicked := Some ''close of closed channel''\<rparr>)"
proof -
  have i: "inv s" using assms(1) by (rule inv_run)
  from i assms(2) have c: "toCheck_closed s" "loop s \<noteq> L_idle" by (auto simp: inv_def cl_inv_def)
  then show ?thesis using assms(3,4,5) by (simp add: fire_def)
qed

theorem second_finish_panics_witness:
  "run sched_finish (system subj_U 1 prog_FF) \<noteq> None
   \<and> finish_result (the (run sched_finish (system subj_U 1 prog_FF))) = Some (Some {}, None)
   \<and> fire Client_Close (the (run sched_finish (system subj_U 1 prog_FF)))
       = Some ((the (run sched_finish (system subj_U 1 prog_FF)))
                 \<lparr>panicked := Some ''close of closed channel''\<rparr>)"
proof -
  define s where "s = the (run sched_finish (system subj_U 1 prog_FF))"
  have r: "run sched_finish (system subj_U 1 prog_FF) = Some s"
    unfolding s_def by (simp add: ex_defs eval_defs)
  have h: "Finish \<in> set (issued s)" "\<not> in_finish s" "panicked s = None"
    "pending s = Finish # []" "finish_result s = Some (Some {}, None)"
    unfolding s_def by (simp_all add: ex_defs eval_defs)
  from second_finish_panics[OF r h(1,2,3,4)]
  have "fire Client_Close s = Some (s\<lparr>panicked := Some ''close of closed channel''\<rparr>)" .
  moreover from r have "run sched_finish (system subj_U 1 prog_FF) \<noteq> None" by simp
  ultimately show ?thesis using h(5) unfolding s_def by blast
qed

text \<open>
  C5, as amended. With a ceiling of at least 1 and the caller's context not cancelled: when
  \<open>Start\<close> and then \<open>Finish\<close> are called with no check enqueued before, \<open>Finish\<close>
  returns an empty collector and no error. It does return: a run without cancellation in
  which \<open>Finish\<close> has not returned has fewer than 8 steps and can take a further step that
  is not a cancellation.
\<close>

theorem finish_without_checks:
  assumes "run sched (system subj maxc (Finish # rest)) = Some s"
    and "1 \<le> unat maxc" and "ctx_err s = None"
  shows "(\<forall>r. finish_result s = Some r \<longrightarrow> r = (Some {}, None))
       \<and> (finish_result s = None \<longrightarrow>
            length sched < 8 \<and> (\<exists>l. (\<forall>e. l \<noteq> Ctx_Cancel e) \<and> fire l s \<noteq> None))"
proof -
  have z: "zc_all rest s" using assms(1) by (rule zc_all_run)
  have n: "1 \<le> sem_size s" using sem_size_run[OF assms(1)] assms(2) by simp
  have a: "r = (Some {}, None)" if "finish_result s = Some r" for r
    using z assms(3) that by (rule zc_finished)
  have b: "length sched < 8 \<and> (\<exists>l. (\<forall>e. l \<noteq> Ctx_Cancel e) \<and> fire l s \<noteq> None)"
    if f: "finish_result s = None"
  proof -
    from zc_rank_run[OF assms(1,3) f] have "length sched + rank s = 8" .
    moreover from f have "1 \<le> rank s" by (simp add: rank_def client_rank_def)
    ultimately have "length sched < 8" by simp
    with zc_enabled[OF z assms(3) f n] show ?thesis by blast
  qed
  from a b show ?thesis by blast
qed

theorem finish_without_checks_witness:
  "run sched_finish (system subj_U 1 [Finish]) \<noteq> None
   \<and> ctx_err (the (run sched_finish (system subj_U 1 [Finish]))) = None
   \<and> finish_result (the (run sched_finish (system subj_U 1 [Finish]))) = Some (Some {}, None)
   \<and> run [Client_Start, Loop_Acquire] (system subj_U 1 [Finish]) \<noteq> None
   \<and> finish_result (the (run [Client_Start, Loop_Acquire] (system subj_U 1 [Finish]))) = None
   \<and> length [Client_Start, Loop_Acquire] < 8"
proof -
  define s where "s = the (run sched_finish (system subj_U 1 [Finish]))"
  define t where "t = the (run [Client_Start, Loop_Acquire] (system subj_U 1 [Finish]))"
  have one: "1 \<le> unat (1 :: 8 word)" by simp
  have r: "run sched_finish (system subj_U 1 [Finish]) = Some s"
    unfolding s_def by (simp add: ex_defs eval_defs)
  have h: "ctx_err s = None" "finish_result s \<noteq> None"
    unfolding s_def by (simp_all add: ex_defs eval_defs)
  from h(2) obtain r' where f': "finish_result s = Some r'" by blast
  from finish_without_checks[OF r one h(1)] f' have fin: "finish_result s = Some (Some {}, None)"
    by simp
  have rt: "run [Client_Start, Loop_Acquire] (system subj_U 1 [Finish]) = Some t"
    unfolding t_def by (simp add: eval_defs)
  have ht: "ctx_err t = None" "finish_result t = None"
    unfolding t_def by (simp_all add: eval_defs)
  from finish_without_checks[OF rt one ht(1)] ht(2)
  have len: "length [Client_Start, Loop_Acquire] < 8" by blast
  from r have n: "run sched_finish (system subj_U 1 [Finish]) \<noteq> None" by simp
  from rt have nt: "run [Client_Start, Loop_Acquire] (system subj_U 1 [Finish]) \<noteq> None" by simp
  from n h(1) fin nt ht(2) len show ?thesis unfolding s_def t_def by blast
qed

text \<open>
  The claim C5 as stated fails with a ceiling of 0, where \<open>Finish\<close> returns the context's
  error once the caller's context is cancelled and cannot return before (after \<open>Start\<close> and
  \<open>close\<close> neither the loop nor the client can take a step), and it fails with a ceiling
  of 1 when the context is done before the loop's first \<open>Acquire\<close>, which then returns
  \<open>ctx.Err()\<close>.
\<close>

theorem finish_without_checks_fails:
  "run sched_zero_cancelled (system subj_U 0 [Finish]) \<noteq> None
   \<and> finish_result (the (run sched_zero_cancelled (system subj_U 0 [Finish])))
       = Some (None, Some Canceled)
   \<and> run [Client_Start, Client_Close] (system subj_U 0 [Finish]) \<noteq> None
   \<and> finish_result (the (run [Client_Start, Client_Close] (system subj_U 0 [Finish]))) = None
   \<and> fire Loop_Acquire (the (run [Client_Start, Client_Close] (system subj_U 0 [Finish]))) = None
   \<and> fire Loop_AcquireErr (the (run [Client_Start, Client_Close] (system subj_U 0 [Finish]))) = None
   \<and> fire Client_Wait (the (run [Client_Start, Client_Close] (system subj_U 0 [Finish]))) = None
   \<and> run sched_cancelled_first (system subj_U 1 [Finish]) \<noteq> None
   \<and> finish_result (the (run sched_cancelled_first (system subj_U 1 [Finish])))
       = Some (None, Some DeadlineExceeded)"
  by (simp add: sched_zero_cancelled_def sched_cancelled_first_def eval_defs)

text \<open>
  C7, as amended. Construction with a ceiling of 0 is accepted: the constructor has no check,
  and \<open>Start\<close> runs on the dispatcher it returns. That dispatcher is not usable: after any
  run it has created no worker, no backend call is executing, and \<open>Finish\<close> has not
  returned a collector.
\<close>

theorem zero_ceiling_accepted_unusable:
  assumes "run sched (system subj 0 prog) = Some s"
  shows "fire Client_Start (system subj 0 prog) \<noteq> None
       \<and> maxConcurrent s = 0 \<and> length (workers s) = 0 \<and> calls_executing s = 0
       \<and> (\<forall>R. finish_result s \<noteq> Some (Some R, None))"
proof -
  have i: "inv s" using assms by (rule inv_run)
  have z: "z_inv s" using assms by (rule z_inv_run)
  have a: "fire Client_Start (system subj 0 prog) \<noteq> None" by (simp add: run_defs)
  from z have b: "maxConcurrent s = 0" "length (workers s) = 0" "calls_executing s = 0"
    by (simp_all add: z_inv_def calls_executing_def)
  have "finish_result s \<noteq> Some (Some R, None)" for R
    using zero_finish[OF i z, of "(Some R, None)"] by auto
  with a b show ?thesis by blast
qed

theorem zero_ceiling_accepted_unusable_witness:
  "run sched_zero_cancelled (system subj_U 0 [Finish]) \<noteq> None
   \<and> finish_result (the (run sched_zero_cancelled (system subj_U 0 [Finish]))) \<noteq> None
   \<and> length (workers (the (run sched_zero_cancelled (system subj_U 0 [Finish])))) = 0
   \<and> finish_result (the (run sched_zero_cancelled (system subj_U 0 [Finish])))
       \<noteq> Some (Some {}, None)"
proof -
  define s where "s = the (run sched_zero_cancelled (system subj_U 0 [Finish]))"
  have r: "run sched_zero_cancelled (system subj_U 0 [Finish]) = Some s"
    unfolding s_def by (simp add: sched_zero_cancelled_def eval_defs)
  have f: "finish_result s \<noteq> None"
    unfolding s_def by (simp add: sched_zero_cancelled_def eval_defs)
  from zero_ceiling_accepted_unusable[OF r]
  have u: "length (workers s) = 0" "finish_result s \<noteq> Some (Some {}, None)" by blast+
  from r have n: "run sched_zero_cancelled (system subj_U 0 [Finish]) \<noteq> None" by simp
  from n f u show ?thesis unfolding s_def by blast
qed

text \<open>
  The claim C7 as stated fails: the constructor returns, for a ceiling of 0, the dispatcher
  it returns for a ceiling of 1 with the ceiling field 0, and \<open>Start\<close> and \<open>Finish\<close> can be
  called on it.
\<close>

theorem zero_ceiling_constructed:
  "NewParallelChecker subj_U 0 = (NewParallelChecker subj_U 1)\<lparr>maxConcurrent := 0\<rparr>
   \<and> maxConcurrent (NewParallelChecker subj_U 0) = 0
   \<and> run [Client_Start, Client_Close] (system subj_U 0 [Finish]) \<noteq> None"
  by (simp add: eval_defs)

text \<open>
  C10. With a ceiling of 0, after any run: the loop's acquisition of a token is not enabled,
  no worker has been created and the backend has received no request; and whenever
  \<open>Finish\<close> has returned, the caller's context has been cancelled and \<open>Finish\<close> has
  returned that context's error and no collector. While the client waits in \<open>Finish\<close>,
  once the context is cancelled a step other than a cancellation is enabled, and every such
  step lowers a rank of at most 4: \<open>Finish\<close> then returns.
\<close>

theorem zero_ceiling_blocks_until_cancelled:
  assumes "run sched (system subj 0 prog) = Some s"
  shows "fire Loop_Acquire s = None \<and> workers s = [] \<and> dispatched s = []
       \<and> (\<forall>r. finish_result s = Some r \<longrightarrow> (\<exists>e. ctx_err s = Some e \<and> r = (None, Some e)))
       \<and> (in_finish s \<longrightarrow>
            (ctx_err s \<noteq> None \<longrightarrow> (\<exists>l. (\<forall>e. l \<noteq> Ctx_Cancel e) \<and> fire l s \<noteq> None))
          \<and> (\<forall>l s'. fire l s = Some s' \<longrightarrow>
                 (\<exists>e. l = Ctx_Cancel e) \<or> Suc (z_rank s') = z_rank s))"
proof -
  have i: "inv s" using assms by (rule inv_run)
  have z: "z_inv s" using assms by (rule z_inv_run)
  have c: "cc_inv s" using assms by (rule cc_inv_run)
  from z have a: "fire Loop_Acquire s = None"
    by (auto simp: fire_def z_inv_def sem_free_def sem_size_def)
  from z have b: "workers s = []" "dispatched s = []" by (simp_all add: z_inv_def)
  have p: "\<exists>l. (\<forall>e. l \<noteq> Ctx_Cancel e) \<and> fire l s \<noteq> None"
    if "in_finish s" and "ctx_err s \<noteq> None"
    using i z c that by (rule zero_waiting_enabled)
  have q: "(\<exists>e. l = Ctx_Cancel e) \<or> Suc (z_rank s') = z_rank s"
    if w: "in_finish s" and f: "fire l s = Some s'" for l s'
  proof -
    from f have st: "step l s = Some s'" by (simp add: fire_def split: if_splits)
    from i have "cl_inv s" by (simp add: inv_def)
    with z show ?thesis using w st by (rule zero_waiting_rank)
  qed
  from a b zero_finish[OF i z] p q show ?thesis by blast
qed

theorem zero_ceiling_blocks_until_cancelled_witness:
  "run sched_zero_cancelled (system subj_U 0 [Finish]) \<noteq> None
   \<and> ctx_err (the (run sched_zero_cancelled (system subj_U 0 [Finish]))) = Some Canceled
   \<and> finish_result (the (run sched_zero_cancelled (system subj_U 0 [Finish])))
       = Some (None, Some Canceled)"
proof -
  define s where "s = the (run sched_zero_cancelled (system subj_U 0 [Finish]))"
  have r: "run sched_zero_cancelled (system subj_U 0 [Finish]) = Some s"
    unfolding s_def by (simp add: sched_zero_cancelled_def eval_defs)
  have f: "finish_result s \<noteq> None" "ctx_err s = Some Canceled"
    unfolding s_def by (simp_all add: sched_zero_cancelled_def eval_defs)
  from f(1) obtain r' where f': "finish_result s = Some r'" by blast
  from zero_ceiling_blocks_until_cancelled[OF r] f' f(2) have "r' = (None, Some Canceled)"
    by auto
  with f' have fin: "finish_result s = Some (None, Some Canceled)" by simp
  from r have n: "run sched_zero_cancelled (system subj_U 0 [Finish]) \<noteq> None" by simp
  from n f(2) fin show ?thesis unfolding s_def by blast
qed

end
